theory Spec2Isabelle
  imports Main "HOL-Library.Word" "HOL-Library.Sublist"
begin

unbundle bit_operations_syntax

section \<open>Data model of the GATT client\<close>

text \<open>
  The driver of \<^verbatim>\<open>src/gattclient.cpp\<close> is a class \<^verbatim>\<open>GattClient\<close> that owns a
  \<^verbatim>\<open>Bled112Client\<close> (the serial transport) and four fields: \<^verbatim>\<open>connected_\<close>,
  \<^verbatim>\<open>address_\<close>, \<^verbatim>\<open>connection\<close> and \<^verbatim>\<open>event_queue\<close> (an identifier cannot end in an
  underscore here, so the first two are \<open>connected_field\<close> and \<open>address_field\<close>). Every member function is
  modelled as a function from the object's state to an outcome and the state the object
  is left in. The state is returned on failure as well, because a C++ exception leaves
  the object with whatever the function had already assigned.
\<close>

type_synonym u8 = "8 word"

type_synonym u16 = "16 word"

text \<open>\<^verbatim>\<open>Buffer\<close> is a byte vector; \<^verbatim>\<open>Address\<close> is an array of six bytes (the model
  keeps a list and states the size 6 where it matters); \<^verbatim>\<open>Event\<close> is the pair of a
  handle and a payload that \<^verbatim>\<open>event_queue\<close> stores.\<close>

type_synonym Buffer = "u8 list"

type_synonym Address = "u8 list"

type_synonym Event = "u16 \<times> Buffer"

text \<open>The exceptions of the code: \<^verbatim>\<open>std::runtime_error\<close> and \<^verbatim>\<open>std::logic_error\<close> with
  their messages, and whatever the transport raises from \<^verbatim>\<open>read\<close> or \<^verbatim>\<open>write\<close>.\<close>

datatype error = runtime_error string | logic_error string | transport_error

datatype GapDiscoverModeEnum = DiscoverLimited | DiscoverGeneric | DiscoverObservation

datatype GapAddressTypeEnum = AddressTypePublic | AddressTypeRandom

text \<open>The commands the driver writes, with the fields it fills in. \<^verbatim>\<open>GapConnectDirect\<close>
  carries the address, the address type, the two connection intervals, the timeout and
  the latency; \<^verbatim>\<open>AttclientAttributeWrite\<close> carries the connection, the handle, the
  length byte and the payload written with it.\<close>

datatype command =
    GapDiscover GapDiscoverModeEnum
  | GapEndProcedure
  | ConnectionGetStatus u8
  | GapConnectDirect Address GapAddressTypeEnum u16 u16 u16 u16
  | ConnectionDisconnect u8
  | AttclientAttributeWrite u8 u16 u8 Buffer
  | AttclientReadByHandle u8 u16
  | AttclientFindInformation u8 u16 u16

text \<open>The decoded messages the driver reads, with the fields it looks at:
  a scan response has \<^verbatim>\<open>rssi\<close>, \<^verbatim>\<open>sender\<close> and the advertising data; a connection status
  has \<^verbatim>\<open>flags\<close> and \<^verbatim>\<open>address\<close>; a direct-connect response has \<^verbatim>\<open>connection_handle\<close>;
  an attribute value has \<^verbatim>\<open>atthandle\<close>, the declared \<^verbatim>\<open>length\<close> and the payload; an
  information-found event has \<^verbatim>\<open>chrhandle\<close>, the declared \<^verbatim>\<open>length\<close> and the UUID.\<close>

datatype message =
    GapDiscoverResponse
  | GapScanResponseEvent u8 Address Buffer
  | GapEndProcedureResponse
  | ConnectionGetStatusResponse
  | ConnectionStatusEvent u8 Address
  | GapConnectDirectResponse u8
  | ConnectionDisconnectResponse
  | ConnectionDisconnectedEvent
  | AttclientAttributeWriteResponse
  | AttclientProcedureCompletedEvent
  | AttclientReadByHandleResponse
  | AttclientAttributeValueEvent u16 u8 Buffer
  | AttclientFindInformationResponse
  | AttclientFindInformationFoundEvent u16 u8 Buffer

subsection \<open>The transport\<close>

text \<open>
  Modelled from the spec: \<^verbatim>\<open>Bled112Client\<close> (its \<^verbatim>\<open>write\<close> and \<^verbatim>\<open>read\<close>) is declared
  outside the sources at hand. The spec describes it as an external collaborator with
  \<^verbatim>\<open>write(command[, payload])\<close>, whose failure is a transport error, and a \<^verbatim>\<open>read\<close> that
  blocks until the next decoded message arrives and dispatches it to the matching typed
  handler, a message of an unexpected type being the transport's concern to reject or to
  pass through. It also asks for a test double that replays a scripted sequence of
  messages. The model is that double: \<open>incoming\<close> is the script still to be delivered,
  \<open>sent\<close> records the commands written, \<open>writes_left\<close> is the number of writes the link
  still accepts before \<^verbatim>\<open>write\<close> raises, and \<open>on_unexpected\<close> is the transport's policy
  for a message no handler takes. A read on an exhausted script raises (the link is lost
  or timed out). The loops of the driver read one message a turn, so the length of the
  script bounds their turns: a wait that never ends on the device is a failure here, and
  that a call returns is stated as a result \<open>Inr\<close> wherever a claim says so.
\<close>

datatype unexpected = Reject | Discard

record Bled112Client =
  incoming :: "message list"
  sent :: "command list"
  writes_left :: nat
  on_unexpected :: unexpected

record GattClient =
  client :: Bled112Client
  connected_field :: bool
  address_field :: Address
  connection :: u8
  event_queue :: "Event list"

type_synonym 'a outcome = "(error + 'a) \<times> GattClient"

text \<open>One statement after another: when the first raises, the exception leaves with the
  state reached so far; otherwise the second runs on the result and the new state.\<close>

definition and_then :: "('s \<Rightarrow> (error + 'a) \<times> 's) \<Rightarrow> ('a \<Rightarrow> 's \<Rightarrow> (error + 'b) \<times> 's) \<Rightarrow>
    's \<Rightarrow> (error + 'b) \<times> 's" where
  "and_then m f s = (case m s of (Inl e, s') \<Rightarrow> (Inl e, s') | (Inr x, s') \<Rightarrow> f x s')"

text \<open>Modelled from the spec: \<^verbatim>\<open>client.write(command)\<close> sends one command; it has no
  return value and its failure is a transport error.\<close>

definition client_write :: "command \<Rightarrow> GattClient \<Rightarrow> unit outcome" where
  "client_write c s =
     (if writes_left (client s) = 0 then (Inl transport_error, s)
      else (Inr (), s\<lparr>client := (client s)\<lparr>sent := sent (client s) @ [c],
                                            writes_left := writes_left (client s) - 1\<rparr>\<rparr>))"

text \<open>Modelled from the spec: the next decoded message of the transport, the common
  part of the forms of \<^verbatim>\<open>read\<close>.\<close>

definition next_message :: "GattClient \<Rightarrow> message outcome" where
  "next_message s =
     (case incoming (client s) of
        [] \<Rightarrow> (Inl transport_error, s)
      | m # ms \<Rightarrow> (Inr m, s\<lparr>client := (client s)\<lparr>incoming := ms\<rparr>\<rparr>))"

text \<open>Modelled from the spec: what \<^verbatim>\<open>read\<close> does with a message that none of its
  handlers takes: \<open>True\<close> when the transport rejects it (the read raises), \<open>False\<close>
  when it lets it pass.\<close>

definition rejects :: "GattClient \<Rightarrow> bool" where
  "rejects s = (on_unexpected (client s) = Reject)"

lemma next_message_shorter [termination_simp]:
  "next_message s = (Inr m, s') \<Longrightarrow> length (incoming (client s')) < length (incoming (client s))"
  by (auto simp: next_message_def split: list.splits)

text \<open>Modelled from the spec: \<^verbatim>\<open>client.read<T>()\<close>, the single-type form, returns the
  decoded value of the next message of type \<^verbatim>\<open>T\<close>; \<open>sel\<close> decodes such a message. A
  message of another type is rejected, or passed over while the read keeps waiting, as
  the transport decides.\<close>

function client_read :: "(message \<Rightarrow> 'a option) \<Rightarrow> GattClient \<Rightarrow> 'a outcome" where
  "client_read sel s =
     (case next_message s of
        (Inl e, s') \<Rightarrow> (Inl e, s')
      | (Inr m, s') \<Rightarrow>
          (case sel m of
             Some x \<Rightarrow> (Inr x, s')
           | None \<Rightarrow> if rejects s' then (Inl transport_error, s') else client_read sel s'))"
  by pat_completeness auto

termination
  by (relation "measure (\<lambda>(sel, s). length (incoming (client s)))")
     (auto dest: sym [THEN next_message_shorter])

declare client_read.simps [simp del]

subsection \<open>The message types the driver waits for\<close>

definition as_GapEndProcedureResponse :: "message \<Rightarrow> unit option" where
  "as_GapEndProcedureResponse m = (case m of GapEndProcedureResponse \<Rightarrow> Some () | _ \<Rightarrow> None)"

definition as_ConnectionGetStatusResponse :: "message \<Rightarrow> unit option" where
  "as_ConnectionGetStatusResponse m =
     (case m of ConnectionGetStatusResponse \<Rightarrow> Some () | _ \<Rightarrow> None)"

definition as_ConnectionStatusEvent :: "message \<Rightarrow> (u8 \<times> Address) option" where
  "as_ConnectionStatusEvent m =
     (case m of ConnectionStatusEvent flags status_address \<Rightarrow> Some (flags, status_address)
      | _ \<Rightarrow> None)"

definition as_GapConnectDirectResponse :: "message \<Rightarrow> u8 option" where
  "as_GapConnectDirectResponse m =
     (case m of GapConnectDirectResponse connection_handle \<Rightarrow> Some connection_handle
      | _ \<Rightarrow> None)"

definition as_ConnectionDisconnectResponse :: "message \<Rightarrow> unit option" where
  "as_ConnectionDisconnectResponse m =
     (case m of ConnectionDisconnectResponse \<Rightarrow> Some () | _ \<Rightarrow> None)"

definition as_ConnectionDisconnectedEvent :: "message \<Rightarrow> unit option" where
  "as_ConnectionDisconnectedEvent m =
     (case m of ConnectionDisconnectedEvent \<Rightarrow> Some () | _ \<Rightarrow> None)"

definition as_AttclientAttributeWriteResponse :: "message \<Rightarrow> unit option" where
  "as_AttclientAttributeWriteResponse m =
     (case m of AttclientAttributeWriteResponse \<Rightarrow> Some () | _ \<Rightarrow> None)"

definition as_AttclientProcedureCompletedEvent :: "message \<Rightarrow> unit option" where
  "as_AttclientProcedureCompletedEvent m =
     (case m of AttclientProcedureCompletedEvent \<Rightarrow> Some () | _ \<Rightarrow> None)"

definition as_AttclientReadByHandleResponse :: "message \<Rightarrow> unit option" where
  "as_AttclientReadByHandleResponse m =
     (case m of AttclientReadByHandleResponse \<Rightarrow> Some () | _ \<Rightarrow> None)"

definition as_AttclientAttributeValueEvent :: "message \<Rightarrow> (u16 \<times> u8 \<times> Buffer) option" where
  "as_AttclientAttributeValueEvent m =
     (case m of AttclientAttributeValueEvent atthandle len data \<Rightarrow> Some (atthandle, len, data)
      | _ \<Rightarrow> None)"

definition as_AttclientFindInformationResponse :: "message \<Rightarrow> unit option" where
  "as_AttclientFindInformationResponse m =
     (case m of AttclientFindInformationResponse \<Rightarrow> Some () | _ \<Rightarrow> None)"

text \<open>
  Modelled from the spec: \<^verbatim>\<open>GattClient::readResponse<T>\<close> is a member template
  declared in the header, which is not among the sources. The spec's EventBuffer is
  "an ordered holding area for events observed while waiting for an unrelated response",
  and no unsolicited event is "ever dropped, only deferred": while the driver waits for
  a message of type \<^verbatim>\<open>T\<close>, every attribute-value event that arrives first is appended to
  \<^verbatim>\<open>event_queue\<close>, in arrival order, and the wait ends with the first message of type
  \<^verbatim>\<open>T\<close>.
\<close>

function readResponse :: "(message \<Rightarrow> 'a option) \<Rightarrow> GattClient \<Rightarrow> 'a outcome" where
  "readResponse sel s =
     (case next_message s of
        (Inl e, s') \<Rightarrow> (Inl e, s')
      | (Inr m, s') \<Rightarrow>
          (case sel m of
             Some x \<Rightarrow> (Inr x, s')
           | None \<Rightarrow>
               (case as_AttclientAttributeValueEvent m of
                  Some (atthandle, len, data) \<Rightarrow>
                    readResponse sel (s'\<lparr>event_queue := event_queue s' @ [(atthandle, data)]\<rparr>)
                | None \<Rightarrow> if rejects s' then (Inl transport_error, s') else readResponse sel s')))"
  by pat_completeness auto

termination
  by (relation "measure (\<lambda>(sel, s). length (incoming (client s)))")
     (auto dest: sym [THEN next_message_shorter])

declare readResponse.simps [simp del]

lemma client_read_shorter:
  "client_read sel s = (Inr x, s') \<Longrightarrow> length (incoming (client s')) < length (incoming (client s))"
proof (induction sel s rule: client_read.induct)
  case (1 sel s)
  show ?case
  proof (cases "next_message s")
    case (Pair r s1)
    show ?thesis
    proof (cases r)
      case (Inl e)
      with Pair "1.prems" show ?thesis by (simp add: client_read.simps [of sel s])
    next
      case (Inr m)
      with Pair have less: "length (incoming (client s1)) < length (incoming (client s))"
        by (simp add: next_message_shorter)
      show ?thesis
      proof (cases "sel m")
        case (Some y)
        with Pair Inr "1.prems" less show ?thesis by (simp add: client_read.simps [of sel s])
      next
        case None
        with Pair Inr "1.prems" have "\<not> rejects s1" and "client_read sel s1 = (Inr x, s')"
          by (auto simp: client_read.simps [of sel s] split: if_splits)
        with "1.IH" [OF Pair [symmetric] Inr None] less show ?thesis by simp
      qed
    qed
  qed
qed

text \<open>Modelled from the spec: \<^verbatim>\<open>client.read(handler, ...)\<close>, the form with handlers,
  takes one message and dispatches it once. \<open>sel\<close> says which handler takes the message
  and with what arguments; the caller runs the handler. A message no handler takes is
  rejected or dropped, as the transport decides.\<close>

definition client_dispatch :: "(message \<Rightarrow> 'a option) \<Rightarrow> GattClient \<Rightarrow> 'a option outcome" where
  "client_dispatch sel s =
     (case next_message s of
        (Inl e, s') \<Rightarrow> (Inl e, s')
      | (Inr m, s') \<Rightarrow>
          (case sel m of
             Some x \<Rightarrow> (Inr (Some x), s')
           | None \<Rightarrow> if rejects s' then (Inl transport_error, s') else (Inr None, s')))"

lemma client_dispatch_shorter:
  "client_dispatch sel s = (Inr x, s') \<Longrightarrow>
     length (incoming (client s')) < length (incoming (client s))"
  by (auto simp: client_dispatch_def next_message_def split: list.splits option.splits if_splits)

subsection \<open>Discovery\<close>

text \<open>
  \<^verbatim>\<open>GattClient::discover(callback)\<close>. The callback is the caller's \<^verbatim>\<open>std::function\<close>: it
  may keep state of its own (\<open>'u\<close>), it answers whether discovery goes on, and it may
  throw, in which case the exception leaves \<^verbatim>\<open>discover\<close> from inside the loop. The two
  handlers of the loop are \<^verbatim>\<open>discover_response\<close>, which does nothing, and
  \<^verbatim>\<open>discover_event\<close>, which copies the sender into an \<^verbatim>\<open>Address\<close>, calls the callback and
  clears \<^verbatim>\<open>running\<close> when it answers false.
\<close>

type_synonym 'u discover_callback = "u8 \<Rightarrow> Address \<Rightarrow> Buffer \<Rightarrow> 'u \<Rightarrow> (error + bool) \<times> 'u"

definition discover_handlers :: "message \<Rightarrow> (unit + u8 \<times> Address \<times> Buffer) option" where
  "discover_handlers m =
     (case m of
        GapDiscoverResponse \<Rightarrow> Some (Inl ())
      | GapScanResponseEvent rssi sender data \<Rightarrow> Some (Inr (rssi, sender, data))
      | _ \<Rightarrow> None)"

function discover_loop :: "'u discover_callback \<Rightarrow> GattClient \<Rightarrow> 'u \<Rightarrow>
    (error + unit) \<times> GattClient \<times> 'u" where
  "discover_loop callback s u =
     (case client_dispatch discover_handlers s of
        (Inl e, s') \<Rightarrow> (Inl e, s', u)
      | (Inr None, s') \<Rightarrow> discover_loop callback s' u
      | (Inr (Some (Inl _)), s') \<Rightarrow> discover_loop callback s' u
      | (Inr (Some (Inr (rssi, sender, data))), s') \<Rightarrow>
          (case callback rssi sender data u of
             (Inl e, u') \<Rightarrow> (Inl e, s', u')
           | (Inr True, u') \<Rightarrow> discover_loop callback s' u'
           | (Inr False, u') \<Rightarrow> (Inr (), s', u')))"
  by pat_completeness auto

termination
  by (relation "measure (\<lambda>(callback, s, u). length (incoming (client s)))")
     (auto dest: sym [THEN client_dispatch_shorter])

declare discover_loop.simps [simp del]

definition discover :: "'u discover_callback \<Rightarrow> GattClient \<Rightarrow> 'u \<Rightarrow>
    (error + unit) \<times> GattClient \<times> 'u" where
  "discover callback s u =
     (case client_write (GapDiscover DiscoverGeneric) s of
        (Inl e, s1) \<Rightarrow> (Inl e, s1, u)
      | (Inr _, s1) \<Rightarrow>
          (case discover_loop callback s1 u of
             (Inl e, s2, u2) \<Rightarrow> (Inl e, s2, u2)
           | (Inr _, s2, u2) \<Rightarrow>
               (case client_write GapEndProcedure s2 of
                  (Inl e, s3) \<Rightarrow> (Inl e, s3, u2)
                | (Inr _, s3) \<Rightarrow>
                    (case client_read as_GapEndProcedureResponse s3 of
                       (Inl e, s4) \<Rightarrow> (Inl e, s4, u2)
                     | (Inr _, s4) \<Rightarrow> (Inr (), s4, u2)))))"

subsection \<open>Connect and disconnect\<close>

text \<open>Modelled from the spec: \<^verbatim>\<open>ConnectionConnstatusEnum::Connected\<close> is declared in a
  header that is not among the sources, and the spec only says that a slot "reports
  Connected". The model takes the protocol's value, bit 0 of \<^verbatim>\<open>status.flags\<close>; the
  theorems only use that a status is tested with this mask.\<close>

definition Connected :: u8 where
  "Connected = 1"

text \<open>The loop of \<^verbatim>\<open>connect(const Address &)\<close> over the three connections of the dongle,
  from \<open>i\<close> on. It answers \<open>True\<close> when it has adopted a connection (the \<^verbatim>\<open>return\<close>
  inside the loop) and \<open>False\<close> when it has run through.\<close>

function connect_revive :: "u8 \<Rightarrow> Address \<Rightarrow> GattClient \<Rightarrow> bool outcome" where
  "connect_revive i address s =
     (if i < 3 then
        and_then (client_write (ConnectionGetStatus i)) (\<lambda>_.
        and_then (readResponse as_ConnectionGetStatusResponse) (\<lambda>_.
        and_then (readResponse as_ConnectionStatusEvent) (\<lambda>(flags, status_address) s3.
          if flags AND Connected \<noteq> 0 \<and> address = status_address
          then (Inr True, s3\<lparr>connection := i\<rparr>)
          else connect_revive (i + 1) address s3))) s
      else (Inr False, s))"
  by pat_completeness auto

termination
  by (relation "measure (\<lambda>(i, address, s). 3 - unat i)")
     (auto simp: word_less_nat_alt unat_word_ariths)

declare connect_revive.simps [simp del]

definition connect :: "Address \<Rightarrow> GattClient \<Rightarrow> unit outcome" where
  "connect address s =
     (case connect_revive 0 address s of
        (Inl e, s') \<Rightarrow> (Inl e, s')
      | (Inr True, s') \<Rightarrow> (Inr (), s')
      | (Inr False, s') \<Rightarrow>
          and_then (client_write (GapConnectDirect address AddressTypePublic 6 6 64 0)) (\<lambda>_.
          and_then (readResponse as_GapConnectDirectResponse) (\<lambda>connection_handle s2.
          and_then (readResponse as_ConnectionStatusEvent) (\<lambda>_ s3.
            (Inr (), s3\<lparr>connected_field := True, address_field := address\<rparr>))
            (s2\<lparr>connection := connection_handle\<rparr>))) s')"

text \<open>\<^verbatim>\<open>disconnect(const std::uint8_t connection)\<close>, \<^verbatim>\<open>disconnect()\<close> and
  \<^verbatim>\<open>disconnectAll()\<close>.\<close>

definition disconnect :: "u8 \<Rightarrow> GattClient \<Rightarrow> unit outcome" where
  "disconnect conn s =
     and_then (client_write (ConnectionDisconnect conn)) (\<lambda>_.
     and_then (readResponse as_ConnectionDisconnectResponse) (\<lambda>_ s2.
       if connected_field s2 \<and> connection s2 = conn
       then and_then (readResponse as_ConnectionDisconnectedEvent) (\<lambda>_ s3.
              (Inr (), s3\<lparr>connected_field := False\<rparr>)) s2
       else (Inr (), s2))) s"

definition disconnect_active :: "GattClient \<Rightarrow> unit outcome" where
  "disconnect_active s = disconnect (connection s) s"

function disconnectAll_from :: "u8 \<Rightarrow> GattClient \<Rightarrow> unit outcome" where
  "disconnectAll_from i s =
     (if i < 3 then and_then (disconnect i) (\<lambda>_. disconnectAll_from (i + 1)) s
      else (Inr (), s))"
  by pat_completeness auto

termination
  by (relation "measure (\<lambda>(i, s). 3 - unat i)")
     (auto simp: word_less_nat_alt unat_word_ariths)

declare disconnectAll_from.simps [simp del]

definition disconnectAll :: "GattClient \<Rightarrow> unit outcome" where
  "disconnectAll s = disconnectAll_from 0 s"

subsection \<open>Attributes\<close>

text \<open>\<^verbatim>\<open>writeAttribute(handle, payload)\<close>: the length byte of the command is
  \<^verbatim>\<open>static_cast<std::uint8_t>(payload.size())\<close>.\<close>

definition writeAttribute :: "u16 \<Rightarrow> Buffer \<Rightarrow> GattClient \<Rightarrow> unit outcome" where
  "writeAttribute handle payload s =
     and_then (client_write
        (AttclientAttributeWrite (connection s) handle (of_nat (length payload)) payload)) (\<lambda>_.
     and_then (readResponse as_AttclientAttributeWriteResponse) (\<lambda>_.
     and_then (readResponse as_AttclientProcedureCompletedEvent) (\<lambda>_ s3. (Inr (), s3)))) s"

text \<open>\<^verbatim>\<open>readAttribute(handle)\<close>: the loop is the code's \<^verbatim>\<open>retry:\<close> label and
  \<^verbatim>\<open>goto retry\<close>. Each turn reads an attribute-value event into \<^verbatim>\<open>metadata\<close> and
  \<^verbatim>\<open>data\<close>.\<close>

function readAttribute_retry :: "u16 \<Rightarrow> GattClient \<Rightarrow> Buffer outcome" where
  "readAttribute_retry handle s =
     (case client_read as_AttclientAttributeValueEvent s of
        (Inl e, s') \<Rightarrow> (Inl e, s')
      | (Inr (atthandle, len, data), s') \<Rightarrow>
          if atthandle \<noteq> handle
          then readAttribute_retry handle (s'\<lparr>event_queue := event_queue s' @ [(atthandle, data)]\<rparr>)
          else if unat len \<noteq> length data
          then (Inl (runtime_error ''Data length does not match the expected value.''), s')
          else (Inr data, s'))"
  by pat_completeness auto

termination
  by (relation "measure (\<lambda>(handle, s). length (incoming (client s)))")
     (auto dest: sym [THEN client_read_shorter])

declare readAttribute_retry.simps [simp del]

definition readAttribute :: "u16 \<Rightarrow> GattClient \<Rightarrow> Buffer outcome" where
  "readAttribute handle s =
     and_then (client_write (AttclientReadByHandle (connection s) handle)) (\<lambda>_.
     and_then (readResponse as_AttclientReadByHandleResponse) (\<lambda>_.
       readAttribute_retry handle)) s"

subsection \<open>Notifications\<close>




subsection \<open>Characteristics\<close>

text \<open>\<^verbatim>\<open>characteristics()\<close>: \<^verbatim>\<open>Characteristics\<close> maps a UUID to a handle, and
  \<^verbatim>\<open>chr[uuid] = event.chrhandle\<close> inserts or overwrites. The handlers of the loop are
  \<^verbatim>\<open>information_found\<close> and \<^verbatim>\<open>procedure_completed\<close>.\<close>

type_synonym Characteristics = "Buffer \<rightharpoonup> u16"

definition characteristics_handlers :: "message \<Rightarrow> (u16 \<times> u8 \<times> Buffer + unit) option" where
  "characteristics_handlers m =
     (case m of
        AttclientFindInformationFoundEvent chrhandle len uuid \<Rightarrow> Some (Inl (chrhandle, len, uuid))
      | AttclientProcedureCompletedEvent \<Rightarrow> Some (Inr ())
      | _ \<Rightarrow> None)"

function characteristics_loop :: "Characteristics \<Rightarrow> GattClient \<Rightarrow> Characteristics outcome" where
  "characteristics_loop chr s =
     (case client_dispatch characteristics_handlers s of
        (Inl e, s') \<Rightarrow> (Inl e, s')
      | (Inr None, s') \<Rightarrow> characteristics_loop chr s'
      | (Inr (Some (Inl (chrhandle, len, uuid))), s') \<Rightarrow>
          if unat len \<noteq> length uuid
          then (Inl (runtime_error ''UUID size does not match the expected value.''), s')
          else characteristics_loop (chr(uuid \<mapsto> chrhandle)) s'
      | (Inr (Some (Inr _)), s') \<Rightarrow> (Inr chr, s'))"
  by pat_completeness auto

termination
  by (relation "measure (\<lambda>(chr, s). length (incoming (client s)))")
     (auto dest: sym [THEN client_dispatch_shorter])

declare characteristics_loop.simps [simp del]

definition characteristics :: "GattClient \<Rightarrow> Characteristics outcome" where
  "characteristics s =
     and_then (client_write (AttclientFindInformation (connection s) 0x0001 0xFFFF)) (\<lambda>_.
     and_then (client_read as_AttclientFindInformationResponse) (\<lambda>_.
       characteristics_loop Map.empty)) s"

subsection \<open>Addresses as text\<close>

text \<open>
  \<^verbatim>\<open>print_address\<close> writes to \<^verbatim>\<open>std::cout\<close> and sets only the base (\<^verbatim>\<open>std::hex\<close>) and the
  width (\<^verbatim>\<open>std::setw(2)\<close>, which the output of the number resets to 0, so the colon is
  not padded); the rest of the formatting is the stream's own at the time of the call.
  \<open>ios\<close> holds what of it bears on the output of an \<^verbatim>\<open>int\<close> in base 16: the fill
  character, the flags \<^verbatim>\<open>uppercase\<close> and \<^verbatim>\<open>showbase\<close>, and the bits of \<^verbatim>\<open>adjustfield\<close>
  (\<open>unset\<close> when none or several of them are set, as in the initial state of
  \<^verbatim>\<open>std::cout\<close>, which pads like \<^verbatim>\<open>right\<close>). \<^verbatim>\<open>showpos\<close> does not show in base 16, and
  the locale is taken to be the classic one, without digit grouping. The model returns
  the characters written.
\<close>

datatype adjustment = left | right | internal | unset

record ios =
  fill :: char
  uppercase :: bool
  showbase :: bool
  adjustfield :: adjustment

definition hex_digit :: "bool \<Rightarrow> nat \<Rightarrow> char" where
  "hex_digit upper n =
     (if n < 10 then char_of (48 + n) else if upper then char_of (55 + n) else char_of (87 + n))"

fun to_hex :: "bool \<Rightarrow> nat \<Rightarrow> string" where
  "to_hex upper n =
     (if n < 16 then [hex_digit upper n]
      else to_hex upper (n div 16) @ [hex_digit upper (n mod 16)])"

declare to_hex.simps [simp del]

text \<open>The base prefix that \<^verbatim>\<open>showbase\<close> asks for; the value 0 has none.\<close>

definition hex_prefix :: "ios \<Rightarrow> nat \<Rightarrow> string" where
  "hex_prefix cout n =
     (if showbase cout \<and> n \<noteq> 0 then (if uppercase cout then ''0X'' else ''0x'') else [])"

text \<open>\<^verbatim>\<open>std::cout << std::hex << std::setw(w) << n\<close> for a non-negative \<^verbatim>\<open>int n\<close>: prefix
  and digits, padded with the fill character to \<open>w\<close> characters: after them when the
  stream adjusts to the left, between prefix and digits when it adjusts internally,
  before them otherwise.\<close>

definition put_hex :: "ios \<Rightarrow> nat \<Rightarrow> nat \<Rightarrow> string" where
  "put_hex cout w n =
     (let prefix_part = hex_prefix cout n;
          digits = to_hex (uppercase cout) n;
          padding = replicate (w - length (prefix_part @ digits)) (fill cout)
      in case adjustfield cout of
           left \<Rightarrow> prefix_part @ digits @ padding
         | internal \<Rightarrow> prefix_part @ padding @ digits
         | _ \<Rightarrow> padding @ prefix_part @ digits)"

fun print_loop :: "ios \<Rightarrow> Address \<Rightarrow> nat \<Rightarrow> string" where
  "print_loop cout address 0 = []"
| "print_loop cout address (Suc i) =
     put_hex cout 2 (unat (address ! i)) @
     (if i \<noteq> 0 then '':'' else []) @
     print_loop cout address i"

definition print_address :: "ios \<Rightarrow> Address \<Rightarrow> string" where
  "print_address cout address = print_loop cout address (length address) @ [CHR 0x0A]"

text \<open>
  The \<^verbatim>\<open>std::istringstream\<close> of \<^verbatim>\<open>connect(const std::string &)\<close>: the characters not yet
  read and the fail bit. A formatted extraction does nothing on a stream that has
  failed; otherwise it skips white space and fails at the end of the input. An
  extraction that fails at this point leaves its target variable as it was.
\<close>

record istringstream =
  buf :: string
  failbit :: bool

definition isspace :: "char \<Rightarrow> bool" where
  "isspace c = (of_char c = (32 :: nat) \<or> (9 \<le> (of_char c :: nat) \<and> (of_char c :: nat) \<le> 13))"

definition hex_val :: "char \<Rightarrow> nat option" where
  "hex_val c =
     (let k = of_char c :: nat in
      if 48 \<le> k \<and> k \<le> 57 then Some (k - 48)
      else if 97 \<le> k \<and> k \<le> 102 then Some (k - 87)
      else if 65 \<le> k \<and> k \<le> 70 then Some (k - 55)
      else None)"

definition is_hex :: "char \<Rightarrow> bool" where
  "is_hex c = (hex_val c \<noteq> None)"

definition hex_number :: "string \<Rightarrow> nat" where
  "hex_number ds = foldl (\<lambda>acc c. 16 * acc + (case hex_val c of Some d \<Rightarrow> d | None \<Rightarrow> 0)) 0 ds"

definition skip_sign :: "string \<Rightarrow> bool \<times> string" where
  "skip_sign b =
     (case b of
        [] \<Rightarrow> (False, [])
      | c # cs \<Rightarrow> if c = CHR ''-'' then (True, cs) else if c = CHR ''+'' then (False, cs)
                  else (False, b))"

definition skip_0x :: "string \<Rightarrow> string" where
  "skip_0x b =
     (case b of
        c0 # c1 # cs \<Rightarrow>
          if c0 = CHR ''0'' \<and> (c1 = CHR ''x'' \<or> c1 = CHR ''X'') then cs else b
      | _ \<Rightarrow> b)"

definition INT_MAX :: int where
  "INT_MAX = 2147483647"

definition INT_MIN :: int where
  "INT_MIN = - 2147483648"

text \<open>\<^verbatim>\<open>ss >> std::hex >> value\<close> for an \<^verbatim>\<open>int value\<close>: an optional sign, an optional
  \<^verbatim>\<open>0x\<close>, then the longest run of hexadecimal digits. Without a digit the extraction
  fails and stores 0; out of the range of \<^verbatim>\<open>int\<close> it fails and stores the nearest
  bound. \<open>old\<close> is what \<^verbatim>\<open>value\<close> held before.\<close>

definition extract_hex :: "int \<Rightarrow> istringstream \<Rightarrow> int \<times> istringstream" where
  "extract_hex old ss =
     (if failbit ss then (old, ss)
      else case dropWhile isspace (buf ss) of
        [] \<Rightarrow> (old, \<lparr>buf = [], failbit = True\<rparr>)
      | c # cs \<Rightarrow>
          (case skip_sign (c # cs) of (negative, b1) \<Rightarrow>
             let b2 = skip_0x b1;
                 digits = takeWhile is_hex b2;
                 b3 = dropWhile is_hex b2;
                 v = (if negative then - int (hex_number digits) else int (hex_number digits))
             in if digits = [] then (0, \<lparr>buf = b3, failbit = True\<rparr>)
                else if INT_MAX < v then (INT_MAX, \<lparr>buf = b3, failbit = True\<rparr>)
                else if v < INT_MIN then (INT_MIN, \<lparr>buf = b3, failbit = True\<rparr>)
                else (v, \<lparr>buf = b3, failbit = False\<rparr>)))"

text \<open>\<^verbatim>\<open>ss >> delimiter\<close> for a \<^verbatim>\<open>char delimiter\<close>.\<close>

definition extract_char :: "char \<Rightarrow> istringstream \<Rightarrow> char \<times> istringstream" where
  "extract_char old ss =
     (if failbit ss then (old, ss)
      else case dropWhile isspace (buf ss) of
        [] \<Rightarrow> (old, \<lparr>buf = [], failbit = True\<rparr>)
      | c # cs \<Rightarrow> (c, \<lparr>buf = cs, failbit = False\<rparr>))"

text \<open>
  The loop of \<^verbatim>\<open>connect(const std::string &)\<close>. \<^verbatim>\<open>int value;\<close> and \<^verbatim>\<open>char delimiter;\<close>
  are declared in the body without an initialiser, and each has one place in the frame
  of the function for all the turns of the loop: a turn finds in them what the turn
  before has stored, and the first turn what the frame held before, which the model
  takes as the parameters \<open>value\<close> and \<open>delimiter\<close> of the first turn. These contents
  show in the result only where an extraction fails, since the code reads the variable
  all the same.
\<close>

fun parse_loop :: "int \<Rightarrow> char \<Rightarrow> istringstream \<Rightarrow> Address \<Rightarrow> nat \<Rightarrow> error + Address" where
  "parse_loop value delimiter ss address 0 = Inr address"
| "parse_loop value delimiter ss address (Suc i) =
     (case extract_hex value ss of (value', ss1) \<Rightarrow>
        (case extract_char delimiter ss1 of (delimiter', ss2) \<Rightarrow>
           if delimiter' \<noteq> CHR '':'' then Inl (runtime_error ''Unexpected delimiter'')
           else parse_loop value' delimiter' ss2 (address[i := word_of_int value']) i))"

text \<open>The address parsed from a string. \<open>stale_value\<close> and \<open>stale_delimiter\<close> are what
  the places of \<^verbatim>\<open>value\<close> and \<^verbatim>\<open>delimiter\<close> hold when the loop starts.
  \<^verbatim>\<open>Address address;\<close> starts with indeterminate bytes as well, all six of which the
  loop assigns before \<^verbatim>\<open>connect(address)\<close> reads them; the model starts from zeros.\<close>

definition parse_address :: "int \<Rightarrow> char \<Rightarrow> string \<Rightarrow> error + Address" where
  "parse_address stale_value stale_delimiter str =
     parse_loop stale_value stale_delimiter \<lparr>buf = str, failbit = False\<rparr> (replicate 6 0) 6"

definition connect_string :: "int \<Rightarrow> char \<Rightarrow> string \<Rightarrow> GattClient \<Rightarrow> unit outcome" where
  "connect_string stale_value stale_delimiter str s =
     (case parse_address stale_value stale_delimiter str of
        Inl e \<Rightarrow> (Inl e, s)
      | Inr address \<Rightarrow> connect address s)"

subsection \<open>Accessors\<close>

text \<open>\<^verbatim>\<open>bool GattClient::connected()\<close> and \<^verbatim>\<open>auto GattClient::address() -> Address\<close>.\<close>

definition connected :: "GattClient \<Rightarrow> bool" where
  "connected s = connected_field s"

definition address :: "GattClient \<Rightarrow> error + Address" where
  "address s =
     (if \<not> connected_field s
      then Inl (logic_error ''Connection is not established, no address available.'')
      else Inr (address_field s))"

section \<open>Notions used in the statements\<close>

text \<open>The attribute-value event of a script, from its handle, declared length and
  payload, and the entry that the driver puts in \<^verbatim>\<open>event_queue\<close> when it buffers the
  event.\<close>

definition value_event :: "u16 \<times> u8 \<times> Buffer \<Rightarrow> message" where
  "value_event e = (case e of (atthandle, len, data) \<Rightarrow> AttclientAttributeValueEvent atthandle len data)"

definition buffered :: "u16 \<times> u8 \<times> Buffer \<Rightarrow> Event" where
  "buffered e = (case e of (atthandle, len, data) \<Rightarrow> (atthandle, data))"

text \<open>What a call may do to the driver besides talking to the transport: it keeps the
  connection state and only appends to the event queue.\<close>

definition keeps_connection :: "GattClient \<Rightarrow> GattClient \<Rightarrow> bool" where
  "keeps_connection s s' \<longleftrightarrow>
     connected_field s' = connected_field s \<and> address_field s' = address_field s \<and>
     connection s' = connection s \<and> prefix (event_queue s) (event_queue s')"

text \<open>A transport that replays \<open>script\<close>, accepts \<open>w\<close> writes and treats unexpected
  messages as \<open>p\<close> says.\<close>

definition replaying :: "message list \<Rightarrow> nat \<Rightarrow> unexpected \<Rightarrow> Bled112Client" where
  "replaying script w p = \<lparr>incoming = script, sent = [], writes_left = w, on_unexpected = p\<rparr>"

text \<open>
  Modelled from the spec: the constructor \<^verbatim>\<open>GattClient(const Bled112Client &)\<close> only
  copies the transport; the initial values of the other members are in the header, which
  is not among the sources. The spec says that the connection state is created
  disconnected and the event buffer empty. The stored address and slot of a fresh driver
  are placeholders here (nothing reads them before a connect).
\<close>

definition GattClient_new :: "Bled112Client \<Rightarrow> GattClient" where
  "GattClient_new t =
     \<lparr>client = t, connected_field = False, address_field = replicate 6 0, connection = 0,
      event_queue = []\<rparr>"

text \<open>What the transport replays when the driver asks for the status of a slot: the
  acknowledgment and the status event with the given flags and peer address.\<close>

definition status_reply :: "u8 \<times> Address \<Rightarrow> message list" where
  "status_reply st = [ConnectionGetStatusResponse, ConnectionStatusEvent (fst st) (snd st)]"

text \<open>The test of the loop of \<^verbatim>\<open>connect\<close>: the status says connected, to this peer.\<close>

definition reports_connected_to :: "Address \<Rightarrow> u8 \<times> Address \<Rightarrow> bool" where
  "reports_connected_to peer st \<longleftrightarrow> fst st AND Connected \<noteq> 0 \<and> peer = snd st"

definition is_GapConnectDirect :: "command \<Rightarrow> bool" where
  "is_GapConnectDirect c = (case c of GapConnectDirect a t imin imax timeout latency \<Rightarrow> True | _ \<Rightarrow> False)"

text \<open>A read leaves the written commands and the transport's settings alone.\<close>

definition same_writes :: "GattClient \<Rightarrow> GattClient \<Rightarrow> bool" where
  "same_writes s s' \<longleftrightarrow>
     sent (client s') = sent (client s) \<and> writes_left (client s') = writes_left (client s) \<and>
     on_unexpected (client s') = on_unexpected (client s)"

text \<open>What the transport replays to \<^verbatim>\<open>disconnect(i)\<close>: the acknowledgment, and the
  disconnected event when slot \<open>i\<close> is the active connection of a connected driver.\<close>

definition disconnect_reply :: "GattClient \<Rightarrow> u8 \<Rightarrow> message list" where
  "disconnect_reply s i =
     ConnectionDisconnectResponse #
     (if connected_field s \<and> connection s = i then [ConnectionDisconnectedEvent] else [])"

text \<open>A callback that also records each of its calls: the arguments and the outcome,
  an answer or the exception thrown.\<close>

type_synonym discover_call = "u8 \<times> Address \<times> Buffer \<times> (error + bool)"

definition answer :: "discover_call \<Rightarrow> error + bool" where
  "answer c = snd (snd (snd c))"

definition logged :: "'u discover_callback \<Rightarrow> ('u \<times> discover_call list) discover_callback" where
  "logged callback rssi sender data ul =
     (case callback rssi sender data (fst ul) of
        (outcome, u') \<Rightarrow> (outcome, (u', snd ul @ [(rssi, sender, data, outcome)])))"

text \<open>What the loop has done when it ends, in terms of the calls it added to the record:
  all calls but the last were answered true; after a normal end the last call was
  answered false; after a failure the last call, if any, was answered true or threw the
  exception that the loop passes on.\<close>

definition calls_end :: "(error + unit) \<Rightarrow> discover_call list \<Rightarrow> bool" where
  "calls_end r new =
     ((\<forall>c\<in>set (butlast new). answer c = Inr True) \<and>
      (case r of
         Inr _ \<Rightarrow> new \<noteq> [] \<and> answer (last new) = Inr False
       | Inl e \<Rightarrow> new = [] \<or> answer (last new) = Inr True \<or> answer (last new) = Inl e))"

text \<open>The callback's state after the loop has read the messages \<open>ms\<close> and goes on: they
  are acknowledgments of the start of discovery and scan responses that the callback
  answers with true.\<close>

fun keeps_scanning :: "'u discover_callback \<Rightarrow> message list \<Rightarrow> 'u \<Rightarrow> 'u option" where
  "keeps_scanning callback [] u = Some u"
| "keeps_scanning callback (m # ms) u =
     (case discover_handlers m of
        None \<Rightarrow> None
      | Some (Inl _) \<Rightarrow> keeps_scanning callback ms u
      | Some (Inr (rssi, sender, data)) \<Rightarrow>
          (case callback rssi sender data u of
             (Inr True, u') \<Rightarrow> keeps_scanning callback ms u'
           | _ \<Rightarrow> None))"

text \<open>The script of an enumeration: an information-found event for each triple of
  handle, declared UUID length and UUID.\<close>

definition found_event :: "u16 \<times> u8 \<times> Buffer \<Rightarrow> message" where
  "found_event f = (case f of (chrhandle, len, uuid) \<Rightarrow>
     AttclientFindInformationFoundEvent chrhandle len uuid)"

definition well_sized :: "u16 \<times> u8 \<times> Buffer \<Rightarrow> bool" where
  "well_sized f = (case f of (chrhandle, len, uuid) \<Rightarrow> unat len = length uuid)"

definition entry :: "u16 \<times> u8 \<times> Buffer \<Rightarrow> Buffer \<times> u16" where
  "entry f = (case f of (chrhandle, len, uuid) \<Rightarrow> (uuid, chrhandle))"

section \<open>Facts about the transport and the driver\<close>

lemma value_event_simp [simp]:
  "value_event (h, l, d) = AttclientAttributeValueEvent h l d"
  by (simp add: value_event_def)

lemma buffered_simp [simp]: "buffered (h, l, d) = (h, d)"
  by (simp add: buffered_def)

lemma next_message_Cons:
  "incoming (client s) = m # ms \<Longrightarrow>
     next_message s = (Inr m, s\<lparr>client := (client s)\<lparr>incoming := ms\<rparr>\<rparr>)"
  by (simp add: next_message_def)

lemma next_message_Nil:
  "incoming (client s) = [] \<Longrightarrow> next_message s = (Inl transport_error, s)"
  by (simp add: next_message_def)

lemma readResponse_hit:
  "incoming (client s) = m # ms \<Longrightarrow> sel m = Some x \<Longrightarrow>
     readResponse sel s = (Inr x, s\<lparr>client := (client s)\<lparr>incoming := ms\<rparr>\<rparr>)"
  by (simp add: readResponse.simps [of sel s] next_message_Cons)

lemma readResponse_value:
  "incoming (client s) = AttclientAttributeValueEvent h l d # ms \<Longrightarrow>
   sel (AttclientAttributeValueEvent h l d) = None \<Longrightarrow>
     readResponse sel s =
       readResponse sel (s\<lparr>client := (client s)\<lparr>incoming := ms\<rparr>,
                           event_queue := event_queue s @ [(h, d)]\<rparr>)"
  by (simp add: readResponse.simps [of sel s] next_message_Cons
      as_AttclientAttributeValueEvent_def)

lemma client_read_hit:
  "incoming (client s) = m # ms \<Longrightarrow> sel m = Some x \<Longrightarrow>
     client_read sel s = (Inr x, s\<lparr>client := (client s)\<lparr>incoming := ms\<rparr>\<rparr>)"
  by (simp add: client_read.simps [of sel s] next_message_Cons)

lemma client_write_ok:
  "0 < writes_left (client s) \<Longrightarrow>
     client_write c s = (Inr (), s\<lparr>client := (client s)\<lparr>sent := sent (client s) @ [c],
                                   writes_left := writes_left (client s) - 1\<rparr>\<rparr>)"
  by (simp add: client_write_def)

lemma readAttribute_retry_mismatches:
  "incoming (client s) = map value_event es @ AttclientAttributeValueEvent handle len data # rest \<Longrightarrow>
   \<forall>e\<in>set es. fst e \<noteq> handle \<Longrightarrow>
   readAttribute_retry handle s =
     (if unat len = length data then Inr data
      else Inl (runtime_error ''Data length does not match the expected value.''),
      s\<lparr>client := (client s)\<lparr>incoming := rest\<rparr>,
        event_queue := event_queue s @ map buffered es\<rparr>)"
proof (induction es arbitrary: s)
  case Nil
  then show ?case
    by (simp add: readAttribute_retry.simps [of handle s] client_read_hit
        as_AttclientAttributeValueEvent_def)
next
  case (Cons e es)
  obtain h l d where e: "e = (h, l, d)" by (cases e)
  let ?s = "s\<lparr>client := (client s)\<lparr>incoming := map value_event es @ AttclientAttributeValueEvent handle len data # rest\<rparr>,
                event_queue := event_queue s @ [(h, d)]\<rparr>"
  from Cons.prems e have step: "readAttribute_retry handle s = readAttribute_retry handle ?s"
    by (simp add: readAttribute_retry.simps [of handle s] client_read_hit
        as_AttclientAttributeValueEvent_def)
  from Cons.prems have "readAttribute_retry handle ?s =
     (if unat len = length data then Inr data
      else Inl (runtime_error ''Data length does not match the expected value.''),
      ?s\<lparr>client := (client ?s)\<lparr>incoming := rest\<rparr>,
        event_queue := event_queue ?s @ map buffered es\<rparr>)"
    by (intro Cons.IH) simp_all
  with step e show ?case by simp
qed

lemma next_message_Inr:
  "next_message s = (Inr m, s') \<Longrightarrow>
     incoming (client s) = m # incoming (client s') \<and>
     s' = s\<lparr>client := (client s)\<lparr>incoming := incoming (client s')\<rparr>\<rparr>"
  by (auto simp: next_message_def split: list.splits)

lemma next_message_Inl:
  "next_message s = (Inl e, s') \<Longrightarrow> s' = s"
  by (auto simp: next_message_def split: list.splits)

lemma keeps_connection_refl [simp]: "keeps_connection s s"
  by (simp add: keeps_connection_def)

lemma keeps_connection_trans:
  "keeps_connection s s1 \<Longrightarrow> keeps_connection s1 s2 \<Longrightarrow> keeps_connection s s2"
  by (auto simp: keeps_connection_def)

lemma keeps_connection_client [simp]:
  "keeps_connection s (s\<lparr>client := t\<rparr>)"
  by (simp add: keeps_connection_def)

lemma client_write_keeps: "client_write c s = (r, s') \<Longrightarrow> keeps_connection s s'"
  by (auto simp: client_write_def split: if_splits)

lemma next_message_keeps: "next_message s = (r, s') \<Longrightarrow> keeps_connection s s'"
  by (auto simp: next_message_def split: list.splits)

lemma client_dispatch_keeps: "client_dispatch sel s = (r, s') \<Longrightarrow> keeps_connection s s'"
  by (auto simp: client_dispatch_def split: prod.splits sum.splits option.splits if_splits
      dest: next_message_keeps)

lemma client_read_Cons:
  "incoming (client s) = m # ms \<Longrightarrow>
     client_read sel s =
       (case sel m of
          Some x \<Rightarrow> (Inr x, s\<lparr>client := (client s)\<lparr>incoming := ms\<rparr>\<rparr>)
        | None \<Rightarrow>
            if on_unexpected (client s) = Reject
            then (Inl transport_error, s\<lparr>client := (client s)\<lparr>incoming := ms\<rparr>\<rparr>)
            else client_read sel (s\<lparr>client := (client s)\<lparr>incoming := ms\<rparr>\<rparr>))"
  by (simp add: client_read.simps [of sel s] next_message_Cons rejects_def)

lemma client_read_Nil:
  "incoming (client s) = [] \<Longrightarrow> client_read sel s = (Inl transport_error, s)"
  by (simp add: client_read.simps [of sel s] next_message_Nil)

lemma readResponse_Cons:
  "incoming (client s) = m # ms \<Longrightarrow>
     readResponse sel s =
       (case sel m of
          Some x \<Rightarrow> (Inr x, s\<lparr>client := (client s)\<lparr>incoming := ms\<rparr>\<rparr>)
        | None \<Rightarrow>
            (case as_AttclientAttributeValueEvent m of
               Some (atthandle, len, data) \<Rightarrow>
                 readResponse sel (s\<lparr>client := (client s)\<lparr>incoming := ms\<rparr>,
                                     event_queue := event_queue s @ [(atthandle, data)]\<rparr>)
             | None \<Rightarrow>
                 if on_unexpected (client s) = Reject
                 then (Inl transport_error, s\<lparr>client := (client s)\<lparr>incoming := ms\<rparr>\<rparr>)
                 else readResponse sel (s\<lparr>client := (client s)\<lparr>incoming := ms\<rparr>\<rparr>)))"
  by (simp add: readResponse.simps [of sel s] next_message_Cons rejects_def
      split: option.splits)

lemma readResponse_Nil:
  "incoming (client s) = [] \<Longrightarrow> readResponse sel s = (Inl transport_error, s)"
  by (simp add: readResponse.simps [of sel s] next_message_Nil)

lemma client_read_keeps: "client_read sel s = (r, s') \<Longrightarrow> keeps_connection s s'"
proof (induction ms \<equiv> "incoming (client s)" arbitrary: s)
  case Nil
  then show ?case by (simp add: client_read_Nil)
next
  case (Cons m ms)
  let ?s1 = "s\<lparr>client := (client s)\<lparr>incoming := ms\<rparr>\<rparr>"
  from Cons.hyps(2) have inc: "incoming (client s) = m # ms" by simp
  have "keeps_connection ?s1 s'" if "client_read sel ?s1 = (r, s')"
    using Cons.hyps(1) [of ?s1] that by simp
  with Cons.prems show ?case
    by (auto simp: client_read_Cons [OF inc] keeps_connection_def
        split: option.splits if_splits)
qed

lemma readResponse_keeps: "readResponse sel s = (r, s') \<Longrightarrow> keeps_connection s s'"
proof (induction ms \<equiv> "incoming (client s)" arbitrary: s)
  case Nil
  then show ?case by (simp add: readResponse_Nil)
next
  case (Cons m ms)
  let ?s1 = "s\<lparr>client := (client s)\<lparr>incoming := ms\<rparr>\<rparr>"
  from Cons.hyps(2) have inc: "incoming (client s) = m # ms" by simp
  have skip: "keeps_connection ?s1 s'" if "readResponse sel ?s1 = (r, s')"
    using Cons.hyps(1) [of ?s1] that by simp
  have buf: "keeps_connection (?s1\<lparr>event_queue := event_queue s @ [e]\<rparr>) s'"
    if "readResponse sel (?s1\<lparr>event_queue := event_queue s @ [e]\<rparr>) = (r, s')" for e
    using Cons.hyps(1) [of "?s1\<lparr>event_queue := event_queue s @ [e]\<rparr>"] that by simp
  from Cons.prems show ?case
    by (auto simp: readResponse_Cons [OF inc] keeps_connection_def
        split: option.splits if_splits dest!: skip buf dest: append_prefixD)
qed

lemma readResponse_Inr:
  "readResponse sel s = (Inr x, s') \<Longrightarrow>
     \<exists>pre m. incoming (client s) = pre @ m # incoming (client s') \<and> sel m = Some x"
proof (induction ms \<equiv> "incoming (client s)" arbitrary: s)
  case Nil
  then show ?case by (simp add: readResponse_Nil)
next
  case (Cons m ms)
  let ?s1 = "s\<lparr>client := (client s)\<lparr>incoming := ms\<rparr>\<rparr>"
  from Cons.hyps(2) have inc: "incoming (client s) = m # ms" by simp
  have later: "\<exists>pre m'. incoming (client s) = pre @ m' # incoming (client s') \<and> sel m' = Some x"
    if "readResponse sel s2 = (Inr x, s')" "incoming (client s2) = ms" for s2
  proof -
    from Cons.hyps(1) [of s2] that
    obtain pre m' where "ms = pre @ m' # incoming (client s')" "sel m' = Some x" by auto
    with inc have "incoming (client s) = (m # pre) @ m' # incoming (client s')" by simp
    with \<open>sel m' = Some x\<close> show ?thesis by blast
  qed
  show ?case
  proof (cases "sel m")
    case (Some y)
    with Cons.prems inc have "y = x" "s' = ?s1" by (simp_all add: readResponse_Cons [OF inc])
    with Some inc have "incoming (client s) = [] @ m # incoming (client s') \<and> sel m = Some x"
      by simp
    then show ?thesis by blast
  next
    case None
    show ?thesis
    proof (cases "as_AttclientAttributeValueEvent m")
      case ev: (Some e)
      with None Cons.prems show ?thesis
        by (auto simp: readResponse_Cons [OF inc] intro!: later split: prod.splits)
    next
      case other: None
      with None Cons.prems show ?thesis
        by (auto simp: readResponse_Cons [OF inc] intro!: later split: if_splits)
    qed
  qed
qed

lemma client_read_Inr:
  "client_read sel s = (Inr x, s') \<Longrightarrow>
     \<exists>pre m. incoming (client s) = pre @ m # incoming (client s') \<and> sel m = Some x \<and>
       (\<forall>m'\<in>set pre. sel m' = None) \<and>
       s' = s\<lparr>client := (client s)\<lparr>incoming := incoming (client s')\<rparr>\<rparr>"
proof (induction ms \<equiv> "incoming (client s)" arbitrary: s)
  case Nil
  then show ?case by (simp add: client_read_Nil)
next
  case (Cons m ms)
  let ?s1 = "s\<lparr>client := (client s)\<lparr>incoming := ms\<rparr>\<rparr>"
  from Cons.hyps(2) have inc: "incoming (client s) = m # ms" by simp
  show ?case
  proof (cases "sel m")
    case (Some y)
    with Cons.prems inc have "y = x" "s' = ?s1" by (simp_all add: client_read_Cons [OF inc])
    with Some inc have "incoming (client s) = [] @ m # incoming (client s') \<and> sel m = Some x \<and>
       (\<forall>m'\<in>set []. sel m' = None) \<and>
       s' = s\<lparr>client := (client s)\<lparr>incoming := incoming (client s')\<rparr>\<rparr>"
      by simp
    then show ?thesis by blast
  next
    case None
    with Cons.prems have run: "client_read sel ?s1 = (Inr x, s')"
      by (auto simp: client_read_Cons [OF inc] split: if_splits)
    from Cons.hyps(1) [of ?s1] run
    obtain pre m' where p: "ms = pre @ m' # incoming (client s')" "sel m' = Some x"
      "\<forall>m'\<in>set pre. sel m' = None"
      "s' = ?s1\<lparr>client := (client ?s1)\<lparr>incoming := incoming (client s')\<rparr>\<rparr>"
      by auto
    with inc None have "incoming (client s) = (m # pre) @ m' # incoming (client s') \<and>
       sel m' = Some x \<and> (\<forall>m'\<in>set (m # pre). sel m' = None) \<and>
       s' = s\<lparr>client := (client s)\<lparr>incoming := incoming (client s')\<rparr>\<rparr>"
      by simp
    then show ?thesis by blast
  qed
qed

lemma readAttribute_retry_Inr:
  "readAttribute_retry handle s = (Inr d, s') \<Longrightarrow>
     \<exists>pre len. incoming (client s) = pre @ AttclientAttributeValueEvent handle len d # incoming (client s')
       \<and> unat len = length d \<and> (\<forall>l' d'. AttclientAttributeValueEvent handle l' d' \<notin> set pre)"
proof (induction n \<equiv> "length (incoming (client s))" arbitrary: s rule: less_induct)
  case less
  obtain r1 s1 where cr: "client_read as_AttclientAttributeValueEvent s = (r1, s1)"
    by (cases "client_read as_AttclientAttributeValueEvent s")
  with less.prems obtain h l d0 where r1: "r1 = Inr (h, l, d0)"
    by (cases r1) (auto simp: readAttribute_retry.simps [of handle s])
  from client_read_Inr [OF cr [unfolded r1]]
  obtain pre m where p: "incoming (client s) = pre @ m # incoming (client s1)"
    "as_AttclientAttributeValueEvent m = Some (h, l, d0)"
    "\<forall>m'\<in>set pre. as_AttclientAttributeValueEvent m' = None"
    by blast
  from p(2) have m: "m = AttclientAttributeValueEvent h l d0"
    by (cases m) (simp_all add: as_AttclientAttributeValueEvent_def)
  from p(3) have pre: "AttclientAttributeValueEvent handle l' d' \<notin> set pre" for l' d'
    by (auto simp: as_AttclientAttributeValueEvent_def)
  show ?case
  proof (cases "h = handle")
    case True
    with less.prems cr r1 have "unat l = length d0" "d0 = d" "s' = s1"
      by (auto simp: readAttribute_retry.simps [of handle s] split: if_splits)
    with p(1) m True pre show ?thesis by blast
  next
    case False
    let ?s2 = "s1\<lparr>event_queue := event_queue s1 @ [(h, d0)]\<rparr>"
    from False less.prems cr r1 have run: "readAttribute_retry handle ?s2 = (Inr d, s')"
      by (simp add: readAttribute_retry.simps [of handle s])
    from p(1) have "length (incoming (client ?s2)) < length (incoming (client s))" by simp
    from less.hyps [OF this run]
    obtain pre2 len where q: "incoming (client s1) = pre2 @ AttclientAttributeValueEvent handle len d # incoming (client s')"
      "unat len = length d" "\<forall>l' d'. AttclientAttributeValueEvent handle l' d' \<notin> set pre2"
      by auto
    from p(1) q(1) have "incoming (client s) = (pre @ m # pre2) @ AttclientAttributeValueEvent handle len d # incoming (client s')"
      by simp
    moreover from pre q(3) m False have "\<forall>l' d'. AttclientAttributeValueEvent handle l' d' \<notin> set (pre @ m # pre2)"
      by auto
    ultimately show ?thesis using q(2) by blast
  qed
qed

lemma readAttribute_matching_event:
  assumes "incoming (client s) =
      AttclientReadByHandleResponse # map value_event es @
      AttclientAttributeValueEvent handle len data # rest"
    and "\<forall>e\<in>set es. fst e \<noteq> handle"
    and "0 < writes_left (client s)"
  shows "readAttribute handle s =
     (if unat len = length data then Inr data
      else Inl (runtime_error ''Data length does not match the expected value.''),
      s\<lparr>client := (client s)\<lparr>incoming := rest,
            sent := sent (client s) @ [AttclientReadByHandle (connection s) handle],
            writes_left := writes_left (client s) - 1\<rparr>,
        event_queue := event_queue s @ map buffered es\<rparr>)"
proof -
  let ?s1 = "s\<lparr>client := (client s)\<lparr>sent := sent (client s) @ [AttclientReadByHandle (connection s) handle],
            writes_left := writes_left (client s) - 1\<rparr>\<rparr>"
  let ?s2 = "?s1\<lparr>client := (client ?s1)\<lparr>incoming := map value_event es @
      AttclientAttributeValueEvent handle len data # rest\<rparr>\<rparr>"
  from assms(3) have w: "client_write (AttclientReadByHandle (connection s) handle) s = (Inr (), ?s1)"
    by (rule client_write_ok)
  from assms(1) have r: "readResponse as_AttclientReadByHandleResponse ?s1 = (Inr (), ?s2)"
    by (subst readResponse_hit [where m = AttclientReadByHandleResponse and x = "()"])
       (simp_all add: as_AttclientReadByHandleResponse_def)
  have "readAttribute_retry handle ?s2 =
     (if unat len = length data then Inr data
      else Inl (runtime_error ''Data length does not match the expected value.''),
      ?s2\<lparr>client := (client ?s2)\<lparr>incoming := rest\<rparr>,
        event_queue := event_queue ?s2 @ map buffered es\<rparr>)"
    using assms(2) by (intro readAttribute_retry_mismatches) simp_all
  with w r show ?thesis by (simp add: readAttribute_def and_then_def)
qed

lemma connect_probe:
  assumes "incoming (client s) = status_reply st @ rest" and "0 < writes_left (client s)"
    and "i < 3"
  shows "connect_revive i peer s =
     (let s3 = s\<lparr>client := (client s)\<lparr>sent := sent (client s) @ [ConnectionGetStatus i],
                  writes_left := writes_left (client s) - 1, incoming := rest\<rparr>\<rparr>
      in if reports_connected_to peer st then (Inr True, s3\<lparr>connection := i\<rparr>)
         else connect_revive (i + 1) peer s3)"
proof -
  let ?s1 = "s\<lparr>client := (client s)\<lparr>sent := sent (client s) @ [ConnectionGetStatus i],
                  writes_left := writes_left (client s) - 1\<rparr>\<rparr>"
  let ?s2 = "?s1\<lparr>client := (client ?s1)\<lparr>incoming := ConnectionStatusEvent (fst st) (snd st) # rest\<rparr>\<rparr>"
  let ?s3 = "?s2\<lparr>client := (client ?s2)\<lparr>incoming := rest\<rparr>\<rparr>"
  from assms(2) have w: "client_write (ConnectionGetStatus i) s = (Inr (), ?s1)"
    by (rule client_write_ok)
  from assms(1) have a: "readResponse as_ConnectionGetStatusResponse ?s1 = (Inr (), ?s2)"
    by (subst readResponse_hit [where m = ConnectionGetStatusResponse and x = "()"])
       (simp_all add: as_ConnectionGetStatusResponse_def status_reply_def)
  have e: "readResponse as_ConnectionStatusEvent ?s2 = (Inr (fst st, snd st), ?s3)"
    by (subst readResponse_hit [where m = "ConnectionStatusEvent (fst st) (snd st)"
          and x = "(fst st, snd st)"])
       (simp_all add: as_ConnectionStatusEvent_def)
  from assms(3) w a e show ?thesis
    by (simp add: connect_revive.simps [of i peer s] and_then_def reports_connected_to_def
        Let_def case_prod_beta)
qed

lemma connect_revive_adopts:
  assumes "incoming (client s) = concat (map status_reply earlier) @ status_reply st @ rest"
    and "\<forall>st'\<in>set earlier. \<not> reports_connected_to peer st'"
    and "reports_connected_to peer st"
    and "unat i + length earlier < 3"
    and "length earlier < writes_left (client s)"
  shows "connect_revive i peer s =
     (Inr True,
      s\<lparr>client := (client s)\<lparr>incoming := rest,
            sent := sent (client s) @
              map (\<lambda>k. ConnectionGetStatus (i + of_nat k)) [0..<Suc (length earlier)],
            writes_left := writes_left (client s) - Suc (length earlier)\<rparr>,
        connection := i + of_nat (length earlier)\<rparr>)"
  using assms
proof (induction earlier arbitrary: i s)
  case Nil
  then have "i < 3" by (simp add: word_less_nat_alt)
  with Nil show ?case by (simp add: connect_probe [where st = st and rest = rest])
next
  case (Cons st' earlier)
  then have i: "i < 3" by (simp add: word_less_nat_alt)
  from Cons.prems have ui: "unat (i + 1) = Suc (unat i)"
    by (simp add: unat_word_ariths)
  let ?s3 = "s\<lparr>client := (client s)\<lparr>sent := sent (client s) @ [ConnectionGetStatus i],
                  writes_left := writes_left (client s) - 1,
                  incoming := concat (map status_reply earlier) @ status_reply st @ rest\<rparr>\<rparr>"
  from Cons.prems i have step: "connect_revive i peer s = connect_revive (i + 1) peer ?s3"
    by (simp add: connect_probe [where st = st'
          and rest = "concat (map status_reply earlier) @ status_reply st @ rest"])
  have "connect_revive (i + 1) peer ?s3 =
     (Inr True,
      ?s3\<lparr>client := (client ?s3)\<lparr>incoming := rest,
            sent := sent (client ?s3) @
              map (\<lambda>k. ConnectionGetStatus (i + 1 + of_nat k)) [0..<Suc (length earlier)],
            writes_left := writes_left (client ?s3) - Suc (length earlier)\<rparr>,
        connection := i + 1 + of_nat (length earlier)\<rparr>)"
    using Cons.prems ui by (intro Cons.IH) simp_all
  with step show ?case
    by (simp add: map_upt_Suc [of _ "Suc (length earlier)"] ac_simps del: upt_Suc)
qed

lemma connect_revival:
  assumes "incoming (client s) = concat (map status_reply earlier) @ status_reply st @ rest"
    and "length earlier < 3"
    and "\<forall>st'\<in>set earlier. \<not> reports_connected_to peer st'"
    and "reports_connected_to peer st"
    and "length earlier < writes_left (client s)"
  shows "connect peer s =
     (Inr (),
      s\<lparr>client := (client s)\<lparr>incoming := rest,
            sent := sent (client s) @
              map (\<lambda>k. ConnectionGetStatus (of_nat k)) [0..<Suc (length earlier)],
            writes_left := writes_left (client s) - Suc (length earlier)\<rparr>,
        connection := of_nat (length earlier)\<rparr>)"
  using connect_revive_adopts [of s earlier st rest peer 0] assms
  by (simp add: connect_def)

lemma same_writes_refl [simp]: "same_writes s s"
  by (simp add: same_writes_def)

lemma same_writes_trans: "same_writes s s1 \<Longrightarrow> same_writes s1 s2 \<Longrightarrow> same_writes s s2"
  by (simp add: same_writes_def)

lemma client_read_same_writes: "client_read sel s = (r, s') \<Longrightarrow> same_writes s s'"
proof (induction ms \<equiv> "incoming (client s)" arbitrary: s)
  case Nil
  then show ?case by (simp add: client_read_Nil)
next
  case (Cons m ms)
  let ?s1 = "s\<lparr>client := (client s)\<lparr>incoming := ms\<rparr>\<rparr>"
  from Cons.hyps(2) have inc: "incoming (client s) = m # ms" by simp
  have "same_writes ?s1 s'" if "client_read sel ?s1 = (r, s')"
    using Cons.hyps(1) [of ?s1] that by simp
  with Cons.prems show ?case
    by (auto simp: client_read_Cons [OF inc] same_writes_def split: option.splits if_splits)
qed

lemma readResponse_same_writes: "readResponse sel s = (r, s') \<Longrightarrow> same_writes s s'"
proof (induction ms \<equiv> "incoming (client s)" arbitrary: s)
  case Nil
  then show ?case by (simp add: readResponse_Nil)
next
  case (Cons m ms)
  let ?s1 = "s\<lparr>client := (client s)\<lparr>incoming := ms\<rparr>\<rparr>"
  from Cons.hyps(2) have inc: "incoming (client s) = m # ms" by simp
  have skip: "same_writes ?s1 s'" if "readResponse sel ?s1 = (r, s')"
    using Cons.hyps(1) [of ?s1] that by simp
  have buf: "same_writes (?s1\<lparr>event_queue := event_queue s @ [e]\<rparr>) s'"
    if "readResponse sel (?s1\<lparr>event_queue := event_queue s @ [e]\<rparr>) = (r, s')" for e
    using Cons.hyps(1) [of "?s1\<lparr>event_queue := event_queue s @ [e]\<rparr>"] that by simp
  from Cons.prems show ?case
    by (auto simp: readResponse_Cons [OF inc] same_writes_def
        split: option.splits if_splits dest!: skip buf)
qed

lemma client_dispatch_same_writes: "client_dispatch sel s = (r, s') \<Longrightarrow> same_writes s s'"
  by (auto simp: client_dispatch_def next_message_def same_writes_def
      split: list.splits option.splits if_splits)

lemma disconnect_returns:
  assumes "disconnect conn s = (Inr (), s')"
  shows "sent (client s') = sent (client s) @ [ConnectionDisconnect conn] \<and>
         connection s' = connection s \<and> address_field s' = address_field s \<and>
         connected_field s' = (connected_field s \<and> connection s \<noteq> conn)"
proof -
  obtain r1 s1 where w: "client_write (ConnectionDisconnect conn) s = (r1, s1)"
    by (cases "client_write (ConnectionDisconnect conn) s")
  obtain r2 s2 where a: "readResponse as_ConnectionDisconnectResponse s1 = (r2, s2)"
    by (cases "readResponse as_ConnectionDisconnectResponse s1")
  obtain r3 s3 where e: "readResponse as_ConnectionDisconnectedEvent s2 = (r3, s3)"
    by (cases "readResponse as_ConnectionDisconnectedEvent s2")
  from assms w a have r: "r1 = Inr ()" "r2 = Inr ()"
    by (auto simp: disconnect_def and_then_def split: sum.splits)
  from w r(1) have s1: "sent (client s1) = sent (client s) @ [ConnectionDisconnect conn]"
    "connection s1 = connection s" "address_field s1 = address_field s"
    "connected_field s1 = connected_field s"
    by (auto simp: client_write_def split: if_splits)
  from readResponse_keeps [OF a] readResponse_same_writes [OF a]
  have s2: "sent (client s2) = sent (client s1)" "connection s2 = connection s1"
    "address_field s2 = address_field s1" "connected_field s2 = connected_field s1"
    by (simp_all add: keeps_connection_def same_writes_def)
  from readResponse_keeps [OF e] readResponse_same_writes [OF e]
  have s3: "sent (client s3) = sent (client s2)" "connection s3 = connection s2"
    "address_field s3 = address_field s2"
    by (simp_all add: keeps_connection_def same_writes_def)
  from assms w a e r s1 s2 s3 show ?thesis
    by (auto simp: disconnect_def and_then_def split: sum.splits if_splits)
qed

lemma disconnectAll_unfold:
  "disconnectAll s = and_then (disconnect 0) (\<lambda>_. and_then (disconnect 1) (\<lambda>_. disconnect 2)) s"
proof -
  have 3: "disconnectAll_from 3 = (\<lambda>s. (Inr (), s))"
    by (rule ext) (simp add: disconnectAll_from.simps [of 3])
  have 2: "disconnectAll_from 2 = disconnect 2"
    by (rule ext) (simp add: disconnectAll_from.simps [of 2] 3 and_then_def split: prod.splits sum.splits)
  have 1: "disconnectAll_from 1 = and_then (disconnect 1) (\<lambda>_. disconnect 2)"
    by (rule ext) (simp add: disconnectAll_from.simps [of 1] 2)
  show ?thesis
    by (simp add: disconnectAll_def disconnectAll_from.simps [of 0] 1)
qed

lemma disconnect_replied:
  assumes "incoming (client s) = disconnect_reply s i @ rest" and "0 < writes_left (client s)"
  shows "disconnect i s =
     (Inr (),
      s\<lparr>client := (client s)\<lparr>sent := sent (client s) @ [ConnectionDisconnect i],
            writes_left := writes_left (client s) - 1, incoming := rest\<rparr>,
        connected_field := connected_field s \<and> connection s \<noteq> i\<rparr>)"
proof -
  let ?s1 = "s\<lparr>client := (client s)\<lparr>sent := sent (client s) @ [ConnectionDisconnect i],
                  writes_left := writes_left (client s) - 1\<rparr>\<rparr>"
  let ?tl = "(if connected_field s \<and> connection s = i then [ConnectionDisconnectedEvent] else []) @ rest"
  let ?s2 = "?s1\<lparr>client := (client ?s1)\<lparr>incoming := ?tl\<rparr>\<rparr>"
  let ?s3 = "?s2\<lparr>client := (client ?s2)\<lparr>incoming := rest\<rparr>\<rparr>"
  from assms(2) have w: "client_write (ConnectionDisconnect i) s = (Inr (), ?s1)"
    by (rule client_write_ok)
  from assms(1) have a: "readResponse as_ConnectionDisconnectResponse ?s1 = (Inr (), ?s2)"
    by (subst readResponse_hit [where m = ConnectionDisconnectResponse and x = "()"])
       (simp_all add: as_ConnectionDisconnectResponse_def disconnect_reply_def)
  have e: "readResponse as_ConnectionDisconnectedEvent ?s2 = (Inr (), ?s3)"
    if "connected_field s \<and> connection s = i"
    using that
    by (subst readResponse_hit [where m = ConnectionDisconnectedEvent and x = "()"])
       (simp_all add: as_ConnectionDisconnectedEvent_def)
  show ?thesis
  proof (cases "connected_field s \<and> connection s = i")
    case True
    with w a e [OF True] show ?thesis by (simp add: disconnect_def and_then_def)
  next
    case False
    with w a show ?thesis by (auto simp: disconnect_def and_then_def)
  qed
qed

lemma disconnectAll_returns:
  assumes "disconnectAll s = (Inr (), s')"
  shows "sent (client s') = sent (client s) @
           [ConnectionDisconnect 0, ConnectionDisconnect 1, ConnectionDisconnect 2] \<and>
         connected_field s' = (connected_field s \<and> connection s \<notin> {0, 1, 2}) \<and>
         connection s' = connection s \<and> address_field s' = address_field s"
proof -
  obtain r0 s0 where d0: "disconnect 0 s = (r0, s0)" by (cases "disconnect 0 s")
  obtain r1 s1 where d1: "disconnect 1 s0 = (r1, s1)" by (cases "disconnect 1 s0")
  from assms d0 d1 have r: "r0 = Inr ()" "r1 = Inr ()" and d2: "disconnect 2 s1 = (Inr (), s')"
    by (auto simp: disconnectAll_unfold and_then_def split: sum.splits)
  from disconnect_returns [OF d0 [unfolded r]] disconnect_returns [OF d1 [unfolded r]]
    disconnect_returns [OF d2]
  show ?thesis by auto
qed

lemma disconnectAll_replied:
  assumes "incoming (client s) =
      disconnect_reply s 0 @ disconnect_reply s 1 @ disconnect_reply s 2 @ rest"
    and "3 \<le> writes_left (client s)"
  shows "disconnectAll s =
     (Inr (),
      s\<lparr>client := (client s)\<lparr>sent := sent (client s) @
              [ConnectionDisconnect 0, ConnectionDisconnect 1, ConnectionDisconnect 2],
            writes_left := writes_left (client s) - 3, incoming := rest\<rparr>,
        connected_field := connected_field s \<and> connection s \<notin> {0, 1, 2}\<rparr>)"
proof -
  let ?s0 = "s\<lparr>client := (client s)\<lparr>sent := sent (client s) @ [ConnectionDisconnect 0],
            writes_left := writes_left (client s) - 1,
            incoming := disconnect_reply s 1 @ disconnect_reply s 2 @ rest\<rparr>,
        connected_field := connected_field s \<and> connection s \<noteq> 0\<rparr>"
  let ?s1 = "?s0\<lparr>client := (client ?s0)\<lparr>sent := sent (client ?s0) @ [ConnectionDisconnect 1],
            writes_left := writes_left (client ?s0) - 1,
            incoming := disconnect_reply s 2 @ rest\<rparr>,
        connected_field := connected_field ?s0 \<and> connection ?s0 \<noteq> 1\<rparr>"
  let ?s2 = "?s1\<lparr>client := (client ?s1)\<lparr>sent := sent (client ?s1) @ [ConnectionDisconnect 2],
            writes_left := writes_left (client ?s1) - 1, incoming := rest\<rparr>,
        connected_field := connected_field ?s1 \<and> connection ?s1 \<noteq> 2\<rparr>"
  from assms have d0: "disconnect 0 s = (Inr (), ?s0)"
    by (intro disconnect_replied) simp_all
  have "disconnect_reply ?s0 1 = disconnect_reply s 1"
    by (auto simp: disconnect_reply_def)
  with assms(2) have d1: "disconnect 1 ?s0 = (Inr (), ?s1)"
    by (intro disconnect_replied) simp_all
  have "disconnect_reply ?s1 2 = disconnect_reply s 2"
    by (auto simp: disconnect_reply_def)
  with assms(2) have d2: "disconnect 2 ?s1 = (Inr (), ?s2)"
    by (intro disconnect_replied) simp_all
  from d0 d1 d2 have "disconnectAll s = (Inr (), ?s2)"
    by (simp add: disconnectAll_unfold and_then_def)
  moreover have "?s2 = s\<lparr>client := (client s)\<lparr>sent := sent (client s) @
              [ConnectionDisconnect 0, ConnectionDisconnect 1, ConnectionDisconnect 2],
            writes_left := writes_left (client s) - 3, incoming := rest\<rparr>,
        connected_field := connected_field s \<and> connection s \<notin> {0, 1, 2}\<rparr>"
    by auto
  ultimately show ?thesis by simp
qed

lemma client_dispatch_Cons:
  "incoming (client s) = m # ms \<Longrightarrow>
     client_dispatch sel s =
       (case sel m of
          Some x \<Rightarrow> (Inr (Some x), s\<lparr>client := (client s)\<lparr>incoming := ms\<rparr>\<rparr>)
        | None \<Rightarrow>
            if on_unexpected (client s) = Reject
            then (Inl transport_error, s\<lparr>client := (client s)\<lparr>incoming := ms\<rparr>\<rparr>)
            else (Inr None, s\<lparr>client := (client s)\<lparr>incoming := ms\<rparr>\<rparr>))"
  by (simp add: client_dispatch_def next_message_Cons rejects_def)

lemma client_dispatch_Nil:
  "incoming (client s) = [] \<Longrightarrow> client_dispatch sel s = (Inl transport_error, s)"
  by (simp add: client_dispatch_def next_message_Nil)

lemma characteristics_loop_Cons:
  "incoming (client s) = m # ms \<Longrightarrow>
     characteristics_loop chr s =
       (case characteristics_handlers m of
          None \<Rightarrow>
            if on_unexpected (client s) = Reject
            then (Inl transport_error, s\<lparr>client := (client s)\<lparr>incoming := ms\<rparr>\<rparr>)
            else characteristics_loop chr (s\<lparr>client := (client s)\<lparr>incoming := ms\<rparr>\<rparr>)
        | Some (Inl (chrhandle, len, uuid)) \<Rightarrow>
            if unat len \<noteq> length uuid
            then (Inl (runtime_error ''UUID size does not match the expected value.''),
                  s\<lparr>client := (client s)\<lparr>incoming := ms\<rparr>\<rparr>)
            else characteristics_loop (chr(uuid \<mapsto> chrhandle))
                   (s\<lparr>client := (client s)\<lparr>incoming := ms\<rparr>\<rparr>)
        | Some (Inr _) \<Rightarrow> (Inr chr, s\<lparr>client := (client s)\<lparr>incoming := ms\<rparr>\<rparr>))"
  by (simp add: characteristics_loop.simps [of chr s] client_dispatch_Cons
      split: option.splits sum.splits)

lemma characteristics_loop_Nil:
  "incoming (client s) = [] \<Longrightarrow> characteristics_loop chr s = (Inl transport_error, s)"
  by (simp add: characteristics_loop.simps [of chr s] client_dispatch_Nil)

lemma characteristics_loop_keeps:
  "characteristics_loop chr s = (r, s') \<Longrightarrow> keeps_connection s s'"
proof (induction ms \<equiv> "incoming (client s)" arbitrary: s chr)
  case Nil
  then show ?case by (simp add: characteristics_loop_Nil)
next
  case (Cons m ms)
  let ?s1 = "s\<lparr>client := (client s)\<lparr>incoming := ms\<rparr>\<rparr>"
  from Cons.hyps(2) have inc: "incoming (client s) = m # ms" by simp
  have "keeps_connection ?s1 s'" if "characteristics_loop chr' ?s1 = (r, s')" for chr'
    using Cons.hyps(1) [of ?s1 chr'] that by simp
  with Cons.prems show ?case
    by (auto simp: characteristics_loop_Cons [OF inc] keeps_connection_def
        split: option.splits sum.splits if_splits)
qed

lemma and_then_keeps:
  assumes "and_then m f s = (r, s')"
    and "\<And>r1 s1. m s = (r1, s1) \<Longrightarrow> keeps_connection s s1"
    and "\<And>x s1 r2 s2. f x s1 = (r2, s2) \<Longrightarrow> keeps_connection s1 s2"
  shows "keeps_connection s s'"
proof (cases "m s")
  case (Pair r1 s1)
  with assms(2) have k: "keeps_connection s s1" by blast
  show ?thesis
  proof (cases r1)
    case (Inl e)
    with Pair assms(1) k show ?thesis by (simp add: and_then_def)
  next
    case (Inr x)
    with Pair assms(1) have "f x s1 = (r, s')" by (simp add: and_then_def)
    with assms(3) have "keeps_connection s1 s'" by blast
    with k show ?thesis by (rule keeps_connection_trans)
  qed
qed

lemma writeAttribute_keeps: "writeAttribute handle payload s = (r, s') \<Longrightarrow> keeps_connection s s'"
  unfolding writeAttribute_def
  by (erule and_then_keeps, erule client_write_keeps,
      erule and_then_keeps, erule readResponse_keeps,
      erule and_then_keeps, erule readResponse_keeps) simp

lemma characteristics_keeps: "characteristics s = (r, s') \<Longrightarrow> keeps_connection s s'"
  unfolding characteristics_def
  by (erule and_then_keeps, erule client_write_keeps,
      erule and_then_keeps, erule client_read_keeps, erule characteristics_loop_keeps)

lemma connect_revive_frame:
  "connect_revive i peer s = (r, s') \<Longrightarrow>
     connected_field s' = connected_field s \<and> address_field s' = address_field s \<and>
     prefix (event_queue s) (event_queue s') \<and>
     (r \<noteq> Inr True \<longrightarrow> connection s' = connection s)"
proof (induction n \<equiv> "3 - unat i" arbitrary: i s)
  case 0
  then have "\<not> i < 3" by (simp add: word_less_nat_alt)
  with "0.prems" show ?case by (simp add: connect_revive.simps [of i peer s])
next
  case (Suc n)
  then have i: "i < 3" by (simp add: word_less_nat_alt)
  from Suc.hyps(2) have n: "n = 3 - unat (i + 1)"
    by (simp add: unat_word_ariths)
  obtain r1 s1 where w: "client_write (ConnectionGetStatus i) s = (r1, s1)"
    by (cases "client_write (ConnectionGetStatus i) s")
  obtain r2 s2 where a: "readResponse as_ConnectionGetStatusResponse s1 = (r2, s2)"
    by (cases "readResponse as_ConnectionGetStatusResponse s1")
  obtain r3 s3 where e: "readResponse as_ConnectionStatusEvent s2 = (r3, s3)"
    by (cases "readResponse as_ConnectionStatusEvent s2")
  from client_write_keeps [OF w] readResponse_keeps [OF a] readResponse_keeps [OF e]
  have k1: "keeps_connection s s1" and k2: "keeps_connection s s2"
    and k3: "keeps_connection s s3"
    by (blast intro: keeps_connection_trans)+
  show ?case
  proof (cases "\<exists>st. r1 = Inr () \<and> r2 = Inr () \<and> r3 = Inr st \<and> \<not> reports_connected_to peer st")
    case True
    then obtain st where st: "r1 = Inr ()" "r2 = Inr ()" "r3 = Inr st"
      "\<not> reports_connected_to peer st" by blast
    with i w a e Suc.prems have "connect_revive (i + 1) peer s3 = (r, s')"
      by (auto simp: connect_revive.simps [of i peer s] and_then_def reports_connected_to_def
          case_prod_beta)
    from Suc.hyps(1) [OF n this] k3 show ?thesis
      by (auto simp: keeps_connection_def)
  next
    case False
    with i w a e Suc.prems k1 k2 k3 show ?thesis
      by (cases r1; cases r2; cases r3)
         (auto simp: connect_revive.simps [of i peer s] and_then_def reports_connected_to_def
          case_prod_beta keeps_connection_def split: if_splits)
  qed
qed

lemma readResponse_suffix:
  "readResponse sel s = (r, s') \<Longrightarrow> suffix (incoming (client s')) (incoming (client s))"
proof (induction ms \<equiv> "incoming (client s)" arbitrary: s)
  case Nil
  then show ?case by (simp add: readResponse_Nil)
next
  case (Cons m ms)
  let ?s1 = "s\<lparr>client := (client s)\<lparr>incoming := ms\<rparr>\<rparr>"
  from Cons.hyps(2) have inc: "incoming (client s) = m # ms" by simp
  have skip: "suffix (incoming (client s')) ms" if "readResponse sel ?s1 = (r, s')"
    using Cons.hyps(1) [of ?s1] that by simp
  have buf: "suffix (incoming (client s')) ms"
    if "readResponse sel (?s1\<lparr>event_queue := event_queue s @ [e]\<rparr>) = (r, s')" for e
    using Cons.hyps(1) [of "?s1\<lparr>event_queue := event_queue s @ [e]\<rparr>"] that by simp
  from Cons.prems show ?case
    by (auto simp: readResponse_Cons [OF inc] inc suffix_Cons
        split: option.splits if_splits dest!: skip buf)
qed

lemma connect_revive_suffix:
  "connect_revive i peer s = (r, s') \<Longrightarrow>
     suffix (incoming (client s')) (incoming (client s))"
proof (induction n \<equiv> "3 - unat i" arbitrary: i s)
  case 0
  then have "\<not> i < 3" by (simp add: word_less_nat_alt)
  with "0.prems" show ?case by (simp add: connect_revive.simps [of i peer s])
next
  case (Suc n)
  then have i: "i < 3" by (simp add: word_less_nat_alt)
  from Suc.hyps(2) have n: "n = 3 - unat (i + 1)"
    by (simp add: unat_word_ariths)
  obtain r1 s1 where w: "client_write (ConnectionGetStatus i) s = (r1, s1)"
    by (cases "client_write (ConnectionGetStatus i) s")
  obtain r2 s2 where a: "readResponse as_ConnectionGetStatusResponse s1 = (r2, s2)"
    by (cases "readResponse as_ConnectionGetStatusResponse s1")
  obtain r3 s3 where e: "readResponse as_ConnectionStatusEvent s2 = (r3, s3)"
    by (cases "readResponse as_ConnectionStatusEvent s2")
  from w have i1: "incoming (client s1) = incoming (client s)"
    by (auto simp: client_write_def split: if_splits)
  from readResponse_suffix [OF a] readResponse_suffix [OF e] i1
  have k2: "suffix (incoming (client s2)) (incoming (client s))"
    and k3: "suffix (incoming (client s3)) (incoming (client s))"
    by (auto intro: suffix_order.trans)
  show ?case
  proof (cases "\<exists>st. r1 = Inr () \<and> r2 = Inr () \<and> r3 = Inr st \<and> \<not> reports_connected_to peer st")
    case True
    then obtain st where st: "r1 = Inr ()" "r2 = Inr ()" "r3 = Inr st"
      "\<not> reports_connected_to peer st" by blast
    with i w a e Suc.prems have "connect_revive (i + 1) peer s3 = (r, s')"
      by (auto simp: connect_revive.simps [of i peer s] and_then_def reports_connected_to_def
          case_prod_beta)
    from Suc.hyps(1) [OF n this] k3 show ?thesis
      by (rule suffix_order.trans)
  next
    case False
    with i w a e Suc.prems i1 k2 k3 show ?thesis
      by (cases r1; cases r2; cases r3)
         (auto simp: connect_revive.simps [of i peer s] and_then_def reports_connected_to_def
          case_prod_beta split: if_splits)
  qed
qed

lemma connect_failure_frame:
  assumes "connect peer s = (Inl e, s')"
  shows "connected_field s' = connected_field s \<and> address_field s' = address_field s \<and>
     prefix (event_queue s) (event_queue s') \<and>
     (connection s' = connection s \<or>
      (\<exists>pre connection_handle post cs.
         incoming (client s) = pre @ GapConnectDirectResponse connection_handle # post \<and>
         suffix (incoming (client s')) post \<and>
         sent (client s') = cs @ [GapConnectDirect peer AddressTypePublic 6 6 64 0] \<and>
         connection s' = connection_handle))"
proof -
  obtain r0 s0 where l: "connect_revive 0 peer s = (r0, s0)"
    by (cases "connect_revive 0 peer s")
  note f0 = connect_revive_frame [OF l]
  show ?thesis
  proof (cases "r0 = Inr False")
    case False
    with assms l f0 show ?thesis
      by (cases r0) (auto simp: connect_def split: bool.splits)
  next
    case True
    with f0 have k0: "keeps_connection s s0" by (simp add: keeps_connection_def)
    obtain r1 s1 where w: "client_write (GapConnectDirect peer AddressTypePublic 6 6 64 0) s0 = (r1, s1)"
      by (cases "client_write (GapConnectDirect peer AddressTypePublic 6 6 64 0) s0")
    obtain r2 s2 where a: "readResponse as_GapConnectDirectResponse s1 = (r2, s2)"
      by (cases "readResponse as_GapConnectDirectResponse s1")
    from k0 client_write_keeps [OF w] readResponse_keeps [OF a]
    have k1: "keeps_connection s s1" and k2: "keeps_connection s s2"
      by (blast intro: keeps_connection_trans)+
    show ?thesis
    proof (cases "\<exists>h. r1 = Inr () \<and> r2 = Inr h")
      case False
      with True assms l w a k1 k2 show ?thesis
        by (cases r1; cases r2) (auto simp: connect_def and_then_def keeps_connection_def)
    next
      case h: True
      then obtain h where r: "r1 = Inr ()" "r2 = Inr h" by blast
      obtain r3 s3 where e: "readResponse as_ConnectionStatusEvent (s2\<lparr>connection := h\<rparr>) = (r3, s3)"
        by (cases "readResponse as_ConnectionStatusEvent (s2\<lparr>connection := h\<rparr>)")
      from True assms l w a e r have s3: "s' = s3"
        by (cases r3) (auto simp: connect_def and_then_def)
      from w r(1) have w1: "sent (client s1) = sent (client s0) @ [GapConnectDirect peer AddressTypePublic 6 6 64 0]"
        "incoming (client s1) = incoming (client s0)"
        by (auto simp: client_write_def split: if_splits)
      with readResponse_same_writes [OF a] readResponse_same_writes [OF e]
      have snt: "sent (client s3) = sent (client s0) @ [GapConnectDirect peer AddressTypePublic 6 6 64 0]"
        by (simp add: same_writes_def)
      from readResponse_Inr [OF a [unfolded r(2)]]
      obtain pre1 m where p: "incoming (client s1) = pre1 @ m # incoming (client s2)"
        "as_GapConnectDirectResponse m = Some h" by blast
      from p(2) have m: "m = GapConnectDirectResponse h"
        by (cases m) (simp_all add: as_GapConnectDirectResponse_def)
      from connect_revive_suffix [OF l] obtain pre0
        where p0: "incoming (client s) = pre0 @ incoming (client s0)"
        by (auto simp: suffix_def)
      from p0 w1(2) p(1) m
      have inc: "incoming (client s) = (pre0 @ pre1) @ GapConnectDirectResponse h # incoming (client s2)"
        by simp
      from readResponse_suffix [OF e] have sf: "suffix (incoming (client s3)) (incoming (client s2))"
        by simp
      from readResponse_keeps [OF e] have c3: "connection s3 = h"
        by (simp add: keeps_connection_def)
      from inc sf snt c3 s3
      have "\<exists>pre connection_handle post cs.
         incoming (client s) = pre @ GapConnectDirectResponse connection_handle # post \<and>
         suffix (incoming (client s')) post \<and>
         sent (client s') = cs @ [GapConnectDirect peer AddressTypePublic 6 6 64 0] \<and>
         connection s' = connection_handle"
        by blast
      with k2 readResponse_keeps [OF e] s3 show ?thesis
        by (auto simp: keeps_connection_def)
    qed
  qed
qed

lemma connect_revive_runs_through:
  assumes "incoming (client s) = concat (map status_reply sts) @ rest"
    and "\<forall>st\<in>set sts. \<not> reports_connected_to peer st"
    and "unat i + length sts = 3"
    and "length sts \<le> writes_left (client s)"
  shows "connect_revive i peer s =
     (Inr False,
      s\<lparr>client := (client s)\<lparr>sent := sent (client s) @
              map (\<lambda>k. ConnectionGetStatus (i + of_nat k)) [0..<length sts],
            writes_left := writes_left (client s) - length sts, incoming := rest\<rparr>\<rparr>)"
  using assms
proof (induction sts arbitrary: i s)
  case Nil
  then have "\<not> i < 3" by (simp add: word_less_nat_alt)
  with Nil show ?case by (simp add: connect_revive.simps [of i peer s])
next
  case (Cons st sts)
  then have i: "i < 3" by (simp add: word_less_nat_alt)
  from Cons.prems have ui: "unat (i + 1) = Suc (unat i)"
    by (simp add: unat_word_ariths)
  let ?s3 = "s\<lparr>client := (client s)\<lparr>sent := sent (client s) @ [ConnectionGetStatus i],
                  writes_left := writes_left (client s) - 1,
                  incoming := concat (map status_reply sts) @ rest\<rparr>\<rparr>"
  from Cons.prems i have step: "connect_revive i peer s = connect_revive (i + 1) peer ?s3"
    by (simp add: connect_probe [where st = st and rest = "concat (map status_reply sts) @ rest"])
  have "connect_revive (i + 1) peer ?s3 =
     (Inr False,
      ?s3\<lparr>client := (client ?s3)\<lparr>sent := sent (client ?s3) @
              map (\<lambda>k. ConnectionGetStatus (i + 1 + of_nat k)) [0..<length sts],
            writes_left := writes_left (client ?s3) - length sts, incoming := rest\<rparr>\<rparr>)"
    using Cons.prems ui by (intro Cons.IH) simp_all
  with step show ?case
    by (simp add: map_upt_Suc [of _ "length sts"] ac_simps del: upt_Suc)
qed

lemma connect_fresh:
  assumes "incoming (client s) =
      concat (map status_reply sts) @ GapConnectDirectResponse connection_handle # tail"
    and "\<forall>st\<in>set sts. \<not> reports_connected_to peer st"
    and "length sts = 3"
    and "4 \<le> writes_left (client s)"
  shows "connect peer s =
     and_then (readResponse as_ConnectionStatusEvent)
       (\<lambda>_ s3. (Inr (), s3\<lparr>connected_field := True, address_field := peer\<rparr>))
       (s\<lparr>client := (client s)\<lparr>sent := sent (client s) @
               [ConnectionGetStatus 0, ConnectionGetStatus 1, ConnectionGetStatus 2,
                GapConnectDirect peer AddressTypePublic 6 6 64 0],
             writes_left := writes_left (client s) - 4, incoming := tail\<rparr>,
          connection := connection_handle\<rparr>)"
proof -
  let ?cmd = "GapConnectDirect peer AddressTypePublic 6 6 64 0"
  let ?s0 = "s\<lparr>client := (client s)\<lparr>sent := sent (client s) @
              map (\<lambda>k. ConnectionGetStatus (0 + of_nat k)) [0..<length sts],
            writes_left := writes_left (client s) - length sts,
            incoming := GapConnectDirectResponse connection_handle # tail\<rparr>\<rparr>"
  let ?s1 = "?s0\<lparr>client := (client ?s0)\<lparr>sent := sent (client ?s0) @ [?cmd],
            writes_left := writes_left (client ?s0) - 1\<rparr>\<rparr>"
  let ?s2 = "?s1\<lparr>client := (client ?s1)\<lparr>incoming := tail\<rparr>\<rparr>"
  from assms have l: "connect_revive 0 peer s = (Inr False, ?s0)"
    by (intro connect_revive_runs_through) simp_all
  from assms(3,4) have w: "client_write ?cmd ?s0 = (Inr (), ?s1)"
    by (intro client_write_ok) simp
  have a: "readResponse as_GapConnectDirectResponse ?s1 = (Inr connection_handle, ?s2)"
    by (subst readResponse_hit [where m = "GapConnectDirectResponse connection_handle"
          and x = connection_handle])
       (simp_all add: as_GapConnectDirectResponse_def)
  have upt3: "[0..<3] = [0, 1, 2]" by (simp add: upt_rec)
  from l w a assms(3) show ?thesis
    by (simp add: connect_def and_then_def upt3)
qed

lemma discover_loop_Cons:
  "incoming (client s) = m # ms \<Longrightarrow>
     discover_loop callback s u =
       (case discover_handlers m of
          None \<Rightarrow>
            if on_unexpected (client s) = Reject
            then (Inl transport_error, s\<lparr>client := (client s)\<lparr>incoming := ms\<rparr>\<rparr>, u)
            else discover_loop callback (s\<lparr>client := (client s)\<lparr>incoming := ms\<rparr>\<rparr>) u
        | Some (Inl _) \<Rightarrow> discover_loop callback (s\<lparr>client := (client s)\<lparr>incoming := ms\<rparr>\<rparr>) u
        | Some (Inr (rssi, sender, data)) \<Rightarrow>
            (case callback rssi sender data u of
               (Inl e, u') \<Rightarrow> (Inl e, s\<lparr>client := (client s)\<lparr>incoming := ms\<rparr>\<rparr>, u')
             | (Inr True, u') \<Rightarrow>
                 discover_loop callback (s\<lparr>client := (client s)\<lparr>incoming := ms\<rparr>\<rparr>) u'
             | (Inr False, u') \<Rightarrow> (Inr (), s\<lparr>client := (client s)\<lparr>incoming := ms\<rparr>\<rparr>, u')))"
  by (simp add: discover_loop.simps [of callback s u] client_dispatch_Cons
      split: option.splits sum.splits)

lemma discover_loop_Nil:
  "incoming (client s) = [] \<Longrightarrow> discover_loop callback s u = (Inl transport_error, s, u)"
  by (simp add: discover_loop.simps [of callback s u] client_dispatch_Nil)

lemma calls_end_Cons:
  "calls_end r new \<Longrightarrow> answer c = Inr True \<Longrightarrow> calls_end r (c # new)"
  by (cases r) (auto simp: calls_end_def)

lemma discover_loop_logged:
  "discover_loop (logged callback) s (u, l) = (r, s', (u', l')) \<Longrightarrow>
     (\<exists>new. l' = l @ new \<and> calls_end r new) \<and>
     discover_loop callback s u = (r, s', u') \<and>
     same_writes s s' \<and> keeps_connection s s' \<and> event_queue s' = event_queue s \<and>
     suffix (incoming (client s')) (incoming (client s))"
proof (induction ms \<equiv> "incoming (client s)" arbitrary: s u l)
  case Nil
  then show ?case
    by (auto simp: discover_loop_Nil calls_end_def)
next
  case (Cons m ms)
  let ?s1 = "s\<lparr>client := (client s)\<lparr>incoming := ms\<rparr>\<rparr>"
  from Cons.hyps(2) have inc: "incoming (client s) = m # ms" by simp
  have s1: "same_writes s ?s1" "keeps_connection s ?s1" "event_queue ?s1 = event_queue s"
    "suffix (incoming (client ?s1)) (incoming (client s))"
    using inc by (simp_all add: same_writes_def suffix_def)
  have rec: "(\<exists>new. l' = l1 @ new \<and> calls_end r new) \<and>
     discover_loop callback ?s1 u1 = (r, s', u') \<and>
     same_writes s s' \<and> keeps_connection s s' \<and> event_queue s' = event_queue s \<and>
     suffix (incoming (client s')) (incoming (client s))"
    if "discover_loop (logged callback) ?s1 (u1, l1) = (r, s', (u', l'))" for u1 l1
  proof -
    from Cons.hyps(1) [of ?s1 u1 l1] that
    have "(\<exists>new. l' = l1 @ new \<and> calls_end r new) \<and>
     discover_loop callback ?s1 u1 = (r, s', u') \<and>
     same_writes ?s1 s' \<and> keeps_connection ?s1 s' \<and> event_queue s' = event_queue ?s1 \<and>
     suffix (incoming (client s')) (incoming (client ?s1))"
      by simp
    moreover from this inc have "suffix (incoming (client s')) (incoming (client s))"
      by (auto simp: suffix_def)
    ultimately show ?thesis
      by (simp add: same_writes_def keeps_connection_def)
  qed
  show ?case
  proof (cases "discover_handlers m")
    case None
    show ?thesis
    proof (cases "on_unexpected (client s) = Reject")
      case True
      with None Cons.prems s1 show ?thesis
        by (auto simp: discover_loop_Cons [OF inc] calls_end_def)
    next
      case False
      with None Cons.prems have "discover_loop (logged callback) ?s1 (u, l) = (r, s', (u', l'))"
        by (simp add: discover_loop_Cons [OF inc])
      from rec [OF this] None False show ?thesis
        by (simp add: discover_loop_Cons [OF inc])
    qed
  next
    case (Some h)
    show ?thesis
    proof (cases h)
      case (Inl x)
      with Some Cons.prems have "discover_loop (logged callback) ?s1 (u, l) = (r, s', (u', l'))"
        by (simp add: discover_loop_Cons [OF inc])
      from rec [OF this] Some Inl show ?thesis
        by (simp add: discover_loop_Cons [OF inc])
    next
      case (Inr ev)
      obtain rssi sender data where ev: "ev = (rssi, sender, data)" by (cases ev)
      obtain outcome u1 where cb: "callback rssi sender data u = (outcome, u1)"
        by (cases "callback rssi sender data u")
      let ?c = "(rssi, sender, data, outcome)"
      from cb have lg: "logged callback rssi sender data (u, l) = (outcome, (u1, l @ [?c]))"
        by (simp add: logged_def)
      show ?thesis
      proof (cases outcome)
        case thrown: (Inl e)
        with Some Inr ev lg Cons.prems
        have res: "r = Inl e" "s' = ?s1" "u' = u1" "l' = l @ [?c]"
          by (simp_all add: discover_loop_Cons [OF inc])
        from thrown have "calls_end (Inl e) [?c]"
          by (simp add: calls_end_def answer_def)
        with res have "\<exists>new. l' = l @ new \<and> calls_end r new" by blast
        with res s1 Some Inr ev cb thrown show ?thesis
          by (simp add: discover_loop_Cons [OF inc])
      next
        case answered: (Inr b)
        show ?thesis
        proof (cases b)
          case True
          with answered Some Inr ev lg Cons.prems
          have run: "discover_loop (logged callback) ?s1 (u1, l @ [?c]) = (r, s', (u', l'))"
            by (simp add: discover_loop_Cons [OF inc])
          from rec [OF run] obtain new where new: "l' = (l @ [?c]) @ new" "calls_end r new"
            by blast
          from new(2) True answered have "calls_end r (?c # new)"
            by (intro calls_end_Cons) (simp_all add: answer_def)
          moreover from new(1) have "l' = l @ ?c # new" by simp
          ultimately have "\<exists>new. l' = l @ new \<and> calls_end r new" by blast
          with rec [OF run] Some Inr ev cb True answered show ?thesis
            by (simp add: discover_loop_Cons [OF inc])
        next
          case False
          with answered Some Inr ev lg Cons.prems
          have res: "r = Inr ()" "s' = ?s1" "u' = u1" "l' = l @ [?c]"
            by (simp_all add: discover_loop_Cons [OF inc])
          from False answered have "calls_end (Inr ()) [?c]"
            by (simp add: calls_end_def answer_def)
          with res have "\<exists>new. l' = l @ new \<and> calls_end r new" by blast
          with res s1 Some Inr ev cb False answered show ?thesis
            by (simp add: discover_loop_Cons [OF inc])
        qed
      qed
    qed
  qed
qed

lemma discover_loop_stops:
  "incoming (client s) = pre @ GapScanResponseEvent rssi sender data # rest \<Longrightarrow>
   keeps_scanning callback pre u = Some u1 \<Longrightarrow>
   callback rssi sender data u1 = (Inr False, u2) \<Longrightarrow>
   discover_loop callback s u = (Inr (), s\<lparr>client := (client s)\<lparr>incoming := rest\<rparr>\<rparr>, u2)"
proof (induction pre arbitrary: s u)
  case Nil
  then show ?case
    by (simp add: discover_loop_Cons [where m = "GapScanResponseEvent rssi sender data"
          and ms = rest] discover_handlers_def)
next
  case (Cons m pre)
  let ?ms = "pre @ GapScanResponseEvent rssi sender data # rest"
  let ?s1 = "s\<lparr>client := (client s)\<lparr>incoming := ?ms\<rparr>\<rparr>"
  from Cons.prems(1) have inc: "incoming (client s) = m # ?ms" by simp
  have st: "?s1\<lparr>client := (client ?s1)\<lparr>incoming := rest\<rparr>\<rparr> =
      s\<lparr>client := (client s)\<lparr>incoming := rest\<rparr>\<rparr>"
    by simp
  have next_turn: "discover_loop callback ?s1 u' =
      (Inr (), s\<lparr>client := (client s)\<lparr>incoming := rest\<rparr>\<rparr>, u2)"
    if "keeps_scanning callback pre u' = Some u1" for u'
    using Cons.IH [of ?s1 u', OF _ that Cons.prems(3)] st by simp
  from Cons.prems(2) next_turn show ?case
    by (auto simp: discover_loop_Cons [OF inc] split: option.splits sum.splits prod.splits
        bool.splits)
qed

lemma discover_stops:
  assumes "incoming (client s) =
      pre @ GapScanResponseEvent rssi sender data # GapEndProcedureResponse # rest"
    and "keeps_scanning callback pre u = Some u1"
    and "callback rssi sender data u1 = (Inr False, u2)"
    and "2 \<le> writes_left (client s)"
  shows "discover callback s u =
     (Inr (),
      s\<lparr>client := (client s)\<lparr>sent := sent (client s) @
                                   [GapDiscover DiscoverGeneric, GapEndProcedure],
                                 writes_left := writes_left (client s) - 2,
                                 incoming := rest\<rparr>\<rparr>,
      u2)"
proof -
  let ?s1 = "s\<lparr>client := (client s)\<lparr>sent := sent (client s) @ [GapDiscover DiscoverGeneric],
                                     writes_left := writes_left (client s) - 1\<rparr>\<rparr>"
  let ?s2 = "?s1\<lparr>client := (client ?s1)\<lparr>incoming := GapEndProcedureResponse # rest\<rparr>\<rparr>"
  let ?s3 = "?s2\<lparr>client := (client ?s2)\<lparr>sent := sent (client ?s2) @ [GapEndProcedure],
                                       writes_left := writes_left (client ?s2) - 1\<rparr>\<rparr>"
  let ?s4 = "?s3\<lparr>client := (client ?s3)\<lparr>incoming := rest\<rparr>\<rparr>"
  from assms(4) have w1: "client_write (GapDiscover DiscoverGeneric) s = (Inr (), ?s1)"
    by (intro client_write_ok) simp
  from assms(1) have "incoming (client ?s1) =
      pre @ GapScanResponseEvent rssi sender data # GapEndProcedureResponse # rest"
    by simp
  from discover_loop_stops [OF this assms(2,3)]
  have lp: "discover_loop callback ?s1 u = (Inr (), ?s2, u2)" .
  from assms(4) have w2: "client_write GapEndProcedure ?s2 = (Inr (), ?s3)"
    by (intro client_write_ok) simp
  have rd: "client_read as_GapEndProcedureResponse ?s3 = (Inr (), ?s4)"
    by (simp add: client_read_Cons [where m = GapEndProcedureResponse and ms = rest]
        as_GapEndProcedureResponse_def)
  have st: "?s4 = s\<lparr>client := (client s)\<lparr>sent := sent (client s) @
                                   [GapDiscover DiscoverGeneric, GapEndProcedure],
                                 writes_left := writes_left (client s) - 2,
                                 incoming := rest\<rparr>\<rparr>"
    by simp
  from w1 lp w2 rd have "discover callback s u = (Inr (), ?s4, u2)"
    by (simp add: discover_def)
  with st show ?thesis by simp
qed

lemma client_write_cases:
  assumes "client_write c s = (r, s')"
  obtains (failed) "r = Inl transport_error" "s' = s"
  | (written) "r = Inr ()" "sent (client s') = sent (client s) @ [c]"
      "incoming (client s') = incoming (client s)" "event_queue s' = event_queue s"
  using assms by (auto simp: client_write_def split: if_splits)

lemma found_event_simp [simp]:
  "found_event (chrhandle, len, uuid) = AttclientFindInformationFoundEvent chrhandle len uuid"
  by (simp add: found_event_def)

lemma well_sized_simp [simp]: "well_sized (chrhandle, len, uuid) = (unat len = length uuid)"
  by (simp add: well_sized_def)

lemma entry_simp [simp]: "entry (chrhandle, len, uuid) = (uuid, chrhandle)"
  by (simp add: entry_def)

lemma characteristics_loop_found:
  assumes "incoming (client s) = map found_event fs @ AttclientProcedureCompletedEvent # rest"
  shows "fst (characteristics_loop chr s) =
     (if list_all well_sized fs then Inr (chr ++ map_of (rev (map entry fs)))
      else Inl (runtime_error ''UUID size does not match the expected value.''))"
  using assms
proof (induction fs arbitrary: s chr)
  case Nil
  then show ?case
    by (simp add: characteristics_loop_Cons [where m = AttclientProcedureCompletedEvent]
        characteristics_handlers_def)
next
  case (Cons f fs)
  obtain h l u where f: "f = (h, l, u)" by (cases f)
  let ?s1 = "s\<lparr>client := (client s)\<lparr>incoming :=
      map found_event fs @ AttclientProcedureCompletedEvent # rest\<rparr>\<rparr>"
  from Cons.prems f have inc: "incoming (client s) =
      AttclientFindInformationFoundEvent h l u #
      map found_event fs @ AttclientProcedureCompletedEvent # rest"
    by simp
  show ?case
  proof (cases "unat l = length u")
    case False
    with f show ?thesis
      by (simp add: characteristics_loop_Cons [OF inc] characteristics_handlers_def)
  next
    case True
    then have "characteristics_loop chr s = characteristics_loop (chr(u \<mapsto> h)) ?s1"
      by (simp add: characteristics_loop_Cons [OF inc] characteristics_handlers_def)
    moreover have "fst (characteristics_loop (chr(u \<mapsto> h)) ?s1) =
     (if list_all well_sized fs then Inr (chr(u \<mapsto> h) ++ map_of (rev (map entry fs)))
      else Inl (runtime_error ''UUID size does not match the expected value.''))"
      by (rule Cons.IH) simp
    moreover have "chr(u \<mapsto> h) ++ map_of (rev (map entry fs)) =
        chr ++ map_of (rev (map entry (f # fs)))"
      using f by (intro ext) (simp add: map_add_def split: option.splits)
    ultimately show ?thesis using True f by simp
  qed
qed

lemma characteristics_found:
  assumes "incoming (client s) =
      AttclientFindInformationResponse # map found_event fs @
      AttclientProcedureCompletedEvent # rest"
    and "0 < writes_left (client s)"
  shows "fst (characteristics s) =
     (if list_all well_sized fs then Inr (map_of (rev (map entry fs)))
      else Inl (runtime_error ''UUID size does not match the expected value.''))"
proof -
  let ?s1 = "s\<lparr>client := (client s)\<lparr>sent := sent (client s) @
                [AttclientFindInformation (connection s) 0x0001 0xFFFF],
              writes_left := writes_left (client s) - 1\<rparr>\<rparr>"
  let ?s2 = "?s1\<lparr>client := (client ?s1)\<lparr>incoming :=
      map found_event fs @ AttclientProcedureCompletedEvent # rest\<rparr>\<rparr>"
  from assms(2) have w: "client_write (AttclientFindInformation (connection s) 0x0001 0xFFFF) s
      = (Inr (), ?s1)"
    by (rule client_write_ok)
  from assms(1) have a: "client_read as_AttclientFindInformationResponse ?s1 = (Inr (), ?s2)"
    by (subst client_read_hit [where m = AttclientFindInformationResponse and x = "()"])
       (simp_all add: as_AttclientFindInformationResponse_def)
  have "fst (characteristics_loop Map.empty ?s2) =
     (if list_all well_sized fs then Inr (Map.empty ++ map_of (rev (map entry fs)))
      else Inl (runtime_error ''UUID size does not match the expected value.''))"
    by (rule characteristics_loop_found) simp
  with w a show ?thesis by (simp add: characteristics_def and_then_def)
qed

lemma not_hex_chars:
  "\<not> is_hex (CHR '':'')" "\<not> is_hex (CHR 0x0A)" "\<not> is_hex (CHR ''x'')" "\<not> is_hex (CHR ''X'')"
  "\<not> is_hex (CHR ''-'')" "\<not> is_hex (CHR ''+'')" "is_hex (CHR ''0'')"
  by (simp_all add: is_hex_def hex_val_def)

lemma space_chars:
  "isspace (CHR '' '')" "isspace (CHR 0x0A)" "\<not> isspace (CHR '':'')" "\<not> isspace (CHR ''0'')"
  "\<not> isspace (CHR ''x'')" "\<not> isspace (CHR ''X'')"
  by (simp_all add: isspace_def)

lemma is_hex_not_space: "is_hex c \<Longrightarrow> \<not> isspace c"
  by (auto simp: is_hex_def hex_val_def isspace_def Let_def split: if_splits)

lemma isspace_not_hex: "isspace c \<Longrightarrow> \<not> is_hex c"
  using is_hex_not_space by blast

lemma of_char_hex_digit:
  "n < 16 \<Longrightarrow> (of_char (hex_digit upper n) :: nat) =
     (if n < 10 then 48 + n else if upper then 55 + n else 87 + n)"
  by (simp add: hex_digit_def)

lemma hex_val_hex_digit: "n < 16 \<Longrightarrow> hex_val (hex_digit upper n) = Some n"
  by (simp add: hex_val_def of_char_hex_digit Let_def)

lemma is_hex_hex_digit: "n < 16 \<Longrightarrow> is_hex (hex_digit upper n)"
  by (simp add: is_hex_def hex_val_hex_digit)

lemma hex_val_zero: "hex_val (CHR ''0'') = Some 0"
  by (simp add: hex_val_def)

lemma to_hex_byte:
  "n < 256 \<Longrightarrow> to_hex upper n =
     (if n < 16 then [hex_digit upper n]
      else [hex_digit upper (n div 16), hex_digit upper (n mod 16)])"
  by (simp add: to_hex.simps [of upper n] to_hex.simps [of upper "n div 16"])

text \<open>What \<^verbatim>\<open>ss >> std::hex >> value\<close> reads: white space, a base prefix or none, and a
  run of digits that ends before a character that is no digit.\<close>

lemma extract_hex_digits:
  assumes ws: "\<forall>c\<in>set ws. isspace c"
    and pfx: "pfx = [] \<or> pfx = ''0x'' \<or> pfx = ''0X''"
    and ds: "ds \<noteq> []" "\<forall>d\<in>set ds. is_hex d"
    and t: "\<not> is_hex t" "t \<noteq> CHR ''x''" "t \<noteq> CHR ''X''"
    and small: "hex_number ds < 256"
  shows "extract_hex old \<lparr>buf = ws @ pfx @ ds @ t # rest, failbit = False\<rparr> =
     (int (hex_number ds), \<lparr>buf = t # rest, failbit = False\<rparr>)"
proof -
  from ds obtain d ds' where dd: "ds = d # ds'" by (cases ds) auto
  with ds(2) have d: "is_hex d" "\<not> isspace d" "d \<noteq> CHR ''-''" "d \<noteq> CHR ''+''"
    using not_hex_chars by (auto dest: is_hex_not_space)
  have second: "c \<noteq> CHR ''x'' \<and> c \<noteq> CHR ''X''" if "c = hd (ds' @ t # rest)" for c
    using that ds(2) dd t not_hex_chars by (cases ds') auto
  have dw: "dropWhile isspace (ws @ pfx @ ds @ t # rest) = pfx @ ds @ t # rest"
    using ws pfx d dd space_chars by (auto simp: dropWhile_append3)
  have sk: "skip_0x (pfx @ ds @ t # rest) = ds @ t # rest"
    using pfx dd second [OF refl] by (cases ds') (auto simp: skip_0x_def)
  have sg: "skip_sign (pfx @ ds @ t # rest) = (False, pfx @ ds @ t # rest)"
    using pfx dd d by (auto simp: skip_sign_def)
  have tw: "takeWhile is_hex (ds @ t # rest) = ds" "dropWhile is_hex (ds @ t # rest) = t # rest"
    using ds(2) t(1) by (simp_all add: takeWhile_append2 dropWhile_append2)
  obtain c cs where cons: "pfx @ ds @ t # rest = c # cs"
    using dd by (cases "pfx @ ds @ t # rest") auto
  from dw cons have dw': "dropWhile isspace (ws @ pfx @ ds @ t # rest) = c # cs" by simp
  from sg cons have sg': "skip_sign (c # cs) = (False, c # cs)" by simp
  from sk cons have sk': "skip_0x (c # cs) = ds @ t # rest" by simp
  from small have rng: "\<not> INT_MAX < int (hex_number ds)" "\<not> int (hex_number ds) < INT_MIN"
    by (simp_all add: INT_MAX_def INT_MIN_def)
  show ?thesis
    by (simp add: extract_hex_def dw' sg' sk' tw rng ds(1) Let_def)
qed

lemma hex_number_simps:
  "hex_number [d] = (case hex_val d of Some v \<Rightarrow> v | None \<Rightarrow> 0)"
  "hex_number [d, d'] =
     16 * (case hex_val d of Some v \<Rightarrow> v | None \<Rightarrow> 0) +
     (case hex_val d' of Some v \<Rightarrow> v | None \<Rightarrow> 0)"
  by (simp_all add: hex_number_def)

text \<open>What \<^verbatim>\<open>print_address\<close> writes for one byte when the fill character is white space,
  or is the digit 0 and does not follow the digits: white space, a base prefix or none,
  one or two digits of the value of the byte, white space.\<close>

lemma put_hex_byte:
  assumes n: "n < 256"
    and fill_ok: "isspace (fill cout) \<or> fill cout = CHR ''0'' \<and> adjustfield cout \<noteq> left"
  shows "\<exists>ws pfx ds tr.
     put_hex cout 2 n = ws @ pfx @ ds @ tr \<and> (\<forall>c\<in>set ws. isspace c) \<and>
     (pfx = [] \<or> pfx = ''0x'' \<or> pfx = ''0X'') \<and> ds \<noteq> [] \<and> (\<forall>d\<in>set ds. is_hex d) \<and>
     hex_number ds = n \<and> (\<forall>c\<in>set tr. isspace c)"
proof -
  let ?up = "uppercase cout"
  let ?shape = "\<lambda>ws pfx ds tr.
     put_hex cout 2 n = ws @ pfx @ ds @ tr \<and> (\<forall>c\<in>set ws. isspace c) \<and>
     (pfx = [] \<or> pfx = ''0x'' \<or> pfx = ''0X'') \<and> ds \<noteq> [] \<and> (\<forall>d\<in>set ds. is_hex d) \<and>
     hex_number ds = n \<and> (\<forall>c\<in>set tr. isspace c)"
  have pfx: "hex_prefix cout n = [] \<or> hex_prefix cout n = ''0x'' \<or> hex_prefix cout n = ''0X''"
    by (simp add: hex_prefix_def)
  show ?thesis
  proof (cases "n < 16")
    case False
    with n have hi: "n div 16 < 16" and lo: "n mod 16 < 16" by simp_all
    from False n have dg: "to_hex ?up n = [hex_digit ?up (n div 16), hex_digit ?up (n mod 16)]"
      by (simp add: to_hex_byte)
    then have "put_hex cout 2 n = [] @ hex_prefix cout n @ to_hex ?up n @ []"
      by (simp add: put_hex_def Let_def split: adjustment.splits)
    with pfx dg hi lo have "?shape [] (hex_prefix cout n) (to_hex ?up n) []"
      by (simp add: is_hex_hex_digit hex_number_simps hex_val_hex_digit)
    then show ?thesis by blast
  next
    case True
    then have dg: "to_hex ?up n = [hex_digit ?up n]" by (simp add: to_hex.simps [of ?up n])
    show ?thesis
    proof (cases "hex_prefix cout n = []")
      case False
      with pfx have "length (hex_prefix cout n) = 2" by auto
      with dg have "put_hex cout 2 n = [] @ hex_prefix cout n @ to_hex ?up n @ []"
        by (simp add: put_hex_def Let_def split: adjustment.splits)
      with pfx dg True have "?shape [] (hex_prefix cout n) (to_hex ?up n) []"
        by (simp add: is_hex_hex_digit hex_number_simps hex_val_hex_digit)
      then show ?thesis by blast
    next
      case no_prefix: True
      show ?thesis
      proof (cases "adjustfield cout = left")
        case left: True
        with fill_ok have sp: "isspace (fill cout)" by simp
        from left no_prefix dg have "put_hex cout 2 n = [] @ [] @ [hex_digit ?up n] @ [fill cout]"
          by (simp add: put_hex_def Let_def)
        with sp True have "?shape [] [] [hex_digit ?up n] [fill cout]"
          by (simp add: is_hex_hex_digit hex_number_simps hex_val_hex_digit)
        then show ?thesis by blast
      next
        case not_left: False
        with no_prefix dg have out: "put_hex cout 2 n = [fill cout, hex_digit ?up n]"
          by (simp add: put_hex_def Let_def split: adjustment.splits)
        show ?thesis
        proof (cases "isspace (fill cout)")
          case True
          with out \<open>n < 16\<close> have "?shape [fill cout] [] [hex_digit ?up n] []"
            by (simp add: is_hex_hex_digit hex_number_simps hex_val_hex_digit)
          then show ?thesis by blast
        next
          case False
          with fill_ok have "fill cout = CHR ''0''" by simp
          with out \<open>n < 16\<close> have "?shape [] [] [CHR ''0'', hex_digit ?up n] []"
            by (simp add: is_hex_hex_digit hex_number_simps hex_val_hex_digit hex_val_zero
                not_hex_chars)
          then show ?thesis by blast
        qed
      qed
    qed
  qed
qed

lemma extract_hex_put_hex:
  assumes n: "n < 256"
    and fill_ok: "isspace (fill cout) \<or> fill cout = CHR ''0'' \<and> adjustfield cout \<noteq> left"
    and c: "c = CHR '':'' \<or> c = CHR 0x0A"
  shows "\<exists>tr. (\<forall>c\<in>set tr. isspace c) \<and>
     extract_hex old \<lparr>buf = put_hex cout 2 n @ c # rest, failbit = False\<rparr> =
       (int n, \<lparr>buf = tr @ c # rest, failbit = False\<rparr>)"
proof -
  from put_hex_byte [OF n fill_ok] obtain ws pfx ds tr where
    out: "put_hex cout 2 n = ws @ pfx @ ds @ tr" and ws: "\<forall>c\<in>set ws. isspace c"
    and pfx: "pfx = [] \<or> pfx = ''0x'' \<or> pfx = ''0X''" and ds: "ds \<noteq> []" "\<forall>d\<in>set ds. is_hex d"
    and v: "hex_number ds = n" and tr: "\<forall>c\<in>set tr. isspace c"
    by blast
  obtain t rest' where tl: "tr @ c # rest = t # rest'" by (cases tr) auto
  have t: "\<not> is_hex t" "t \<noteq> CHR ''x''" "t \<noteq> CHR ''X''"
    using tl tr c not_hex_chars space_chars by (cases tr; auto dest: isspace_not_hex)+
  from v n have "hex_number ds < 256" by simp
  from extract_hex_digits [OF ws pfx ds t this, of old rest'] out tl v
  have "extract_hex old \<lparr>buf = put_hex cout 2 n @ c # rest, failbit = False\<rparr> =
       (int n, \<lparr>buf = tr @ c # rest, failbit = False\<rparr>)"
    by simp
  with tr show ?thesis by blast
qed

lemma extract_char_after_spaces:
  "\<forall>c\<in>set tr. isspace c \<Longrightarrow> \<not> isspace c \<Longrightarrow>
     extract_char old \<lparr>buf = tr @ c # rest, failbit = False\<rparr> =
       (c, \<lparr>buf = rest, failbit = False\<rparr>)"
  by (simp add: extract_char_def)

lemma extract_char_at_end:
  "\<forall>c\<in>set ws. isspace c \<Longrightarrow>
     extract_char old \<lparr>buf = ws, failbit = False\<rparr> = (old, \<lparr>buf = [], failbit = True\<rparr>)"
  by (simp add: extract_char_def dropWhile_eq_Nil_conv [THEN iffD2])

lemma drop_list_update_same:
  "i < length xs \<Longrightarrow> drop i (xs[i := x]) = x # drop (Suc i) xs"
  by (metis Cons_nth_drop_Suc drop_update_cancel length_list_update lessI nth_list_update_eq)

text \<open>The loop of the parse on the text of the loop of \<^verbatim>\<open>print_address\<close>: the last turn
  finds the input at its end and \<^verbatim>\<open>delimiter\<close> as the turn before has left it, with the
  colon that this turn has read.\<close>

lemma parse_print_loop:
  assumes "i \<le> length a" and "length addr = length a"
    and fill_ok: "isspace (fill cout) \<or> fill cout = CHR ''0'' \<and> adjustfield cout \<noteq> left"
    and "i = 1 \<longrightarrow> delimiter = CHR '':''"
  shows "parse_loop v delimiter \<lparr>buf = print_loop cout a i @ [CHR 0x0A], failbit = False\<rparr> addr i =
     Inr (take i a @ drop i addr)"
  using assms(1,2,4)
proof (induction i arbitrary: addr v delimiter)
  case 0
  then show ?case by simp
next
  case (Suc i)
  then have i: "i < length a" "i < length addr" by simp_all
  have w: "word_of_int (int (unat (a ! i))) = a ! i" by simp
  have lt: "unat (a ! i) < 256" using unsigned_less [of "a ! i"] by simp
  show ?case
  proof (cases "i = 0")
    case True
    from extract_hex_put_hex [OF lt fill_ok, of "CHR 0x0A" v "[]"]
    obtain tr where tr: "\<forall>c\<in>set tr. isspace c"
      and ex: "extract_hex v \<lparr>buf = put_hex cout 2 (unat (a ! i)) @ [CHR 0x0A], failbit = False\<rparr> =
        (int (unat (a ! i)), \<lparr>buf = tr @ [CHR 0x0A], failbit = False\<rparr>)"
      by auto
    from tr have "\<forall>c\<in>set (tr @ [CHR 0x0A]). isspace c" by (simp add: space_chars)
    from extract_char_at_end [OF this]
    have ch: "extract_char delimiter \<lparr>buf = tr @ [CHR 0x0A], failbit = False\<rparr> =
        (delimiter, \<lparr>buf = [], failbit = True\<rparr>)" .
    from Suc.prems(3) True have "delimiter = CHR '':''" by simp
    with True i ex ch w show ?thesis
      by (cases addr) (simp_all add: take_Suc_conv_app_nth)
  next
    case False
    from extract_hex_put_hex [OF lt fill_ok, of "CHR '':''" v "print_loop cout a i @ [CHR 0x0A]"]
    obtain tr where tr: "\<forall>c\<in>set tr. isspace c"
      and ex: "extract_hex v
          \<lparr>buf = put_hex cout 2 (unat (a ! i)) @ CHR '':'' # print_loop cout a i @ [CHR 0x0A],
           failbit = False\<rparr> =
        (int (unat (a ! i)),
         \<lparr>buf = tr @ CHR '':'' # print_loop cout a i @ [CHR 0x0A], failbit = False\<rparr>)"
      by auto
    from extract_char_after_spaces [OF tr space_chars(3)]
    have ch: "extract_char delimiter
          \<lparr>buf = tr @ CHR '':'' # print_loop cout a i @ [CHR 0x0A], failbit = False\<rparr> =
        (CHR '':'', \<lparr>buf = print_loop cout a i @ [CHR 0x0A], failbit = False\<rparr>)" .
    have "parse_loop (int (unat (a ! i))) (CHR '':'')
            \<lparr>buf = print_loop cout a i @ [CHR 0x0A], failbit = False\<rparr> (addr[i := a ! i]) i =
          Inr (take i a @ drop i (addr[i := a ! i]))"
      using Suc.prems by (intro Suc.IH) simp_all
    with False i w ex ch show ?thesis
      by (simp add: take_Suc_conv_app_nth drop_list_update_same)
  qed
qed

text \<open>The text in the spec's canonical form, with two digits to a group and colons
  between the groups, parses as well: the last turn finds the input at its end.\<close>

lemma parse_of_canonical_text:
  "parse_address 0 (CHR 0x00) ''06:05:04:03:02:01'' = Inr [1, 2, 3, 4, 5, 6]"
  by code_simp

text \<open>The condition on the fill character is not idle: padded with a character that is
  neither white space nor a digit, the text is not in base 16 any more, the first
  extraction fails and the loop tests what \<^verbatim>\<open>delimiter\<close> held before the call.\<close>

lemma parse_of_text_filled_with_stars:
  "print_address \<lparr>fill = CHR ''*'', uppercase = False, showbase = False, adjustfield = unset\<rparr>
     [1, 2, 3, 4, 5, 6] = ''*6:*5:*4:*3:*2:*1'' @ [CHR 0x0A]"
  "parse_address 0 (CHR 0x00) (''*6:*5:*4:*3:*2:*1'' @ [CHR 0x0A]) =
     Inl (runtime_error ''Unexpected delimiter'')"
  "parse_address 0 (CHR '':'') (''*6:*5:*4:*3:*2:*1'' @ [CHR 0x0A]) = Inr [0, 0, 0, 0, 0, 0]"
  by code_simp+




section \<open>The claims\<close>

subsection \<open>Parsing a printed address\<close>

text \<open>
  C1, the round trip: parsing the text that formatting writes for an address gives the
  address back. For every address \<open>a\<close> of six bytes, and every formatting state of
  \<^verbatim>\<open>std::cout\<close> whose fill character is white space (as in its initial state), or is the
  digit 0 with padding that does not follow the digits: the loop of
  \<^verbatim>\<open>connect(const std::string &)\<close>, run on the text that \<^verbatim>\<open>print_address\<close> writes for \<open>a\<close>
  (six groups in base 16, the last byte of the array first, colons between them, each
  group padded to two characters, then a new line), ends normally with the address \<open>a\<close>,
  whatever \<^verbatim>\<open>value\<close> and \<^verbatim>\<open>delimiter\<close> hold before the first turn.
\<close>

theorem parse_of_printed_address:
  assumes "length a = 6"
    and "isspace (fill cout) \<or> fill cout = CHR ''0'' \<and> adjustfield cout \<noteq> left"
  shows "parse_address stale_value stale_delimiter (print_address cout a) = Inr a"
  using parse_print_loop [of 6 a "replicate 6 0" cout stale_delimiter stale_value] assms
  by (simp add: parse_address_def print_address_def)

theorem parse_of_printed_address_witness:
  "print_address \<lparr>fill = CHR '' '', uppercase = False, showbase = False, adjustfield = unset\<rparr>
       [1, 2, 3, 4, 5, 0xAB] = ''ab: 5: 4: 3: 2: 1'' @ [CHR 0x0A]
   \<and> parse_address 0 (CHR 0x00)
       (print_address \<lparr>fill = CHR '' '', uppercase = False, showbase = False, adjustfield = unset\<rparr>
          [1, 2, 3, 4, 5, 0xAB]) = Inr [1, 2, 3, 4, 5, 0xAB]
   \<and> print_address \<lparr>fill = CHR ''0'', uppercase = True, showbase = False, adjustfield = right\<rparr>
       [1, 2, 3, 4, 5, 0xAB] = ''AB:05:04:03:02:01'' @ [CHR 0x0A]
   \<and> parse_address 7 (CHR ''x'')
       (print_address \<lparr>fill = CHR ''0'', uppercase = True, showbase = False, adjustfield = right\<rparr>
          [1, 2, 3, 4, 5, 0xAB]) = Inr [1, 2, 3, 4, 5, 0xAB]"
proof -
  let ?initial = "\<lparr>fill = CHR '' '', uppercase = False, showbase = False, adjustfield = unset\<rparr>"
  let ?padded = "\<lparr>fill = CHR ''0'', uppercase = True, showbase = False, adjustfield = right\<rparr>"
  have "print_address ?initial [1, 2, 3, 4, 5, 0xAB] = ''ab: 5: 4: 3: 2: 1'' @ [CHR 0x0A]"
    by code_simp
  moreover have "print_address ?padded [1, 2, 3, 4, 5, 0xAB] = ''AB:05:04:03:02:01'' @ [CHR 0x0A]"
    by code_simp
  moreover have "parse_address 0 (CHR 0x00) (print_address ?initial [1, 2, 3, 4, 5, 0xAB])
      = Inr [1, 2, 3, 4, 5, 0xAB]"
    by (rule parse_of_printed_address) (simp_all add: space_chars)
  moreover have "parse_address 7 (CHR ''x'') (print_address ?padded [1, 2, 3, 4, 5, 0xAB])
      = Inr [1, 2, 3, 4, 5, 0xAB]"
    by (rule parse_of_printed_address) simp_all
  ultimately show ?thesis by (simp only: simp_thms)
qed

subsection \<open>Buffered events are replayed in order\<close>




subsection \<open>Reviving a connection\<close>

text \<open>
  C3. For every call \<^verbatim>\<open>connect(address)\<close>: if a slot reports the status Connected with
  a peer address equal to the requested one (the slots before it, which the loop asks
  first, having reported otherwise), then \<^verbatim>\<open>connect\<close> returns normally with that slot as
  the active one, and the commands it has written are the status queries of the slots up
  to that one and nothing else: no direct-connect command is issued.
\<close>

theorem connect_adopts_connected_slot:
  assumes "incoming (client s) = concat (map status_reply earlier) @ status_reply st @ rest"
    and "length earlier < 3"
    and "\<forall>st'\<in>set earlier. \<not> reports_connected_to peer st'"
    and "reports_connected_to peer st"
    and "length earlier < writes_left (client s)"
  shows "case connect peer s of (r, s') \<Rightarrow>
           r = Inr () \<and> connection s' = of_nat (length earlier) \<and>
           sent (client s') = sent (client s) @
             map (\<lambda>k. ConnectionGetStatus (of_nat k)) [0..<Suc (length earlier)] \<and>
           \<not> list_ex is_GapConnectDirect (drop (length (sent (client s))) (sent (client s'))) \<and>
           incoming (client s') = rest"
  by (simp add: connect_revival [OF assms] list_ex_iff is_GapConnectDirect_def del: upt_Suc)

theorem connect_adopts_connected_slot_witness:
  "case connect [1, 2, 3, 4, 5, 6]
      (GattClient_new (replaying
         (status_reply (0, [0, 0, 0, 0, 0, 0]) @ status_reply (5, [1, 2, 3, 4, 5, 6]) @
          [AttclientAttributeValueEvent 0x30 1 [7]]) 5 Reject)) of
     (r, s') \<Rightarrow>
       r = Inr () \<and> connection s' = 1 \<and>
       sent (client s') = [ConnectionGetStatus 0, ConnectionGetStatus 1] \<and>
       incoming (client s') = [AttclientAttributeValueEvent 0x30 1 [7]]"
  using connect_adopts_connected_slot
    [of "GattClient_new (replaying
         (status_reply (0, [0, 0, 0, 0, 0, 0]) @ status_reply (5, [1, 2, 3, 4, 5, 6]) @
          [AttclientAttributeValueEvent 0x30 1 [7]]) 5 Reject)"
        "[(0, [0, 0, 0, 0, 0, 0])]" "(5, [1, 2, 3, 4, 5, 6])"
        "[AttclientAttributeValueEvent 0x30 1 [7]]" "[1, 2, 3, 4, 5, 6]"]
  by (simp add: GattClient_new_def replaying_def reports_connected_to_def Connected_def
      split: prod.splits)

subsection \<open>Failures part of the way\<close>

text \<open>
  C4 says that an operation of several steps that fails part of the way leaves the
  connected flag, the active slot and the stored peer address as they were. \<^verbatim>\<open>connect\<close>
  stores the connection handle of the direct-connect response in \<^verbatim>\<open>connection\<close> before
  it waits for the connection status; when that wait fails the exception leaves the new
  slot in place. Here the three status queries report no connection, the direct-connect
  response names slot 2, and the script ends: the call fails and the active slot of the
  driver has changed from 0 to 2.
\<close>

theorem connect_failure_changes_active_slot:
  "fst (connect [1, 2, 3, 4, 5, 6]
      (GattClient_new (replaying
         (status_reply (0, [0, 0, 0, 0, 0, 0]) @ status_reply (0, [0, 0, 0, 0, 0, 0]) @
          status_reply (0, [0, 0, 0, 0, 0, 0]) @ [GapConnectDirectResponse 2]) 4 Reject)))
     = Inl transport_error
   \<and> connection (GattClient_new (replaying
         (status_reply (0, [0, 0, 0, 0, 0, 0]) @ status_reply (0, [0, 0, 0, 0, 0, 0]) @
          status_reply (0, [0, 0, 0, 0, 0, 0]) @ [GapConnectDirectResponse 2]) 4 Reject)) = 0
   \<and> connection (snd (connect [1, 2, 3, 4, 5, 6]
      (GattClient_new (replaying
         (status_reply (0, [0, 0, 0, 0, 0, 0]) @ status_reply (0, [0, 0, 0, 0, 0, 0]) @
          status_reply (0, [0, 0, 0, 0, 0, 0]) @ [GapConnectDirectResponse 2]) 4 Reject))))
     = 2"
  using connect_fresh
    [of "GattClient_new (replaying
         (status_reply (0, [0, 0, 0, 0, 0, 0]) @ status_reply (0, [0, 0, 0, 0, 0, 0]) @
          status_reply (0, [0, 0, 0, 0, 0, 0]) @ [GapConnectDirectResponse 2]) 4 Reject)"
        "[(0, [0, 0, 0, 0, 0, 0]), (0, [0, 0, 0, 0, 0, 0]), (0, [0, 0, 0, 0, 0, 0])]"
        2 "[]" "[1, 2, 3, 4, 5, 6]"]
  by (simp add: GattClient_new_def replaying_def reports_connected_to_def Connected_def
      and_then_def readResponse_Nil)

text \<open>
  C4, as the code has it. When \<^verbatim>\<open>connect\<close> fails, the connected flag and the stored
  peer address are as before the call and the event queue has only grown at its end.
  The active slot is as before too, with one exception: when the call has written the
  direct-connect command and read its response, the slot is the connection handle of
  that response (the failure is then that of the wait for the connection status).
  \<^verbatim>\<open>writeAttribute\<close> and \<^verbatim>\<open>characteristics\<close> never touch the flag, the slot or the
  address, and only append to the event queue, whether they fail or not.
\<close>

theorem failure_keeps_flag_and_address:
  "(fst (connect peer s) = Inl e \<longrightarrow>
      connected_field (snd (connect peer s)) = connected_field s \<and>
      address_field (snd (connect peer s)) = address_field s \<and>
      prefix (event_queue s) (event_queue (snd (connect peer s))) \<and>
      (connection (snd (connect peer s)) = connection s \<or>
       (\<exists>pre connection_handle post cs.
          incoming (client s) = pre @ GapConnectDirectResponse connection_handle # post \<and>
          suffix (incoming (client (snd (connect peer s)))) post \<and>
          sent (client (snd (connect peer s))) =
            cs @ [GapConnectDirect peer AddressTypePublic 6 6 64 0] \<and>
          connection (snd (connect peer s)) = connection_handle)))
   \<and> keeps_connection s (snd (writeAttribute handle payload s))
   \<and> keeps_connection s (snd (characteristics s))"
proof (intro conjI impI)
  assume "fst (connect peer s) = Inl e"
  then have "connect peer s = (Inl e, snd (connect peer s))"
    by (cases "connect peer s") simp
  from connect_failure_frame [OF this]
  show "connected_field (snd (connect peer s)) = connected_field s"
    and "address_field (snd (connect peer s)) = address_field s"
    and "prefix (event_queue s) (event_queue (snd (connect peer s)))"
    and "connection (snd (connect peer s)) = connection s \<or>
       (\<exists>pre connection_handle post cs.
          incoming (client s) = pre @ GapConnectDirectResponse connection_handle # post \<and>
          suffix (incoming (client (snd (connect peer s)))) post \<and>
          sent (client (snd (connect peer s))) =
            cs @ [GapConnectDirect peer AddressTypePublic 6 6 64 0] \<and>
          connection (snd (connect peer s)) = connection_handle)"
    by blast+
next
  show "keeps_connection s (snd (writeAttribute handle payload s))"
    by (rule writeAttribute_keeps [of handle payload s "fst (writeAttribute handle payload s)"]) simp
next
  show "keeps_connection s (snd (characteristics s))"
    by (rule characteristics_keeps [of s "fst (characteristics s)"]) simp
qed

theorem failure_keeps_flag_and_address_witness:
  "fst (connect [1, 2, 3, 4, 5, 6]
      (GattClient_new (replaying
         (status_reply (0, [0, 0, 0, 0, 0, 0]) @ status_reply (0, [0, 0, 0, 0, 0, 0]) @
          status_reply (0, [0, 0, 0, 0, 0, 0]) @ [GapConnectDirectResponse 2]) 4 Reject)))
     = Inl transport_error
   \<and> connected_field (snd (connect [1, 2, 3, 4, 5, 6]
      (GattClient_new (replaying
         (status_reply (0, [0, 0, 0, 0, 0, 0]) @ status_reply (0, [0, 0, 0, 0, 0, 0]) @
          status_reply (0, [0, 0, 0, 0, 0, 0]) @ [GapConnectDirectResponse 2]) 4 Reject))))
     = False
   \<and> address_field (snd (connect [1, 2, 3, 4, 5, 6]
      (GattClient_new (replaying
         (status_reply (0, [0, 0, 0, 0, 0, 0]) @ status_reply (0, [0, 0, 0, 0, 0, 0]) @
          status_reply (0, [0, 0, 0, 0, 0, 0]) @ [GapConnectDirectResponse 2]) 4 Reject))))
     = replicate 6 0"
proof -
  let ?s = "GattClient_new (replaying
         (status_reply (0, [0, 0, 0, 0, 0, 0]) @ status_reply (0, [0, 0, 0, 0, 0, 0]) @
          status_reply (0, [0, 0, 0, 0, 0, 0]) @ [GapConnectDirectResponse 2]) 4 Reject)"
  have f: "fst (connect [1, 2, 3, 4, 5, 6] ?s) = Inl transport_error"
    using connect_fresh
      [of ?s "[(0, [0, 0, 0, 0, 0, 0]), (0, [0, 0, 0, 0, 0, 0]), (0, [0, 0, 0, 0, 0, 0])]"
          2 "[]" "[1, 2, 3, 4, 5, 6]"]
    by (simp add: GattClient_new_def replaying_def reports_connected_to_def Connected_def
        and_then_def readResponse_Nil)
  from f failure_keeps_flag_and_address [of "[1, 2, 3, 4, 5, 6]" ?s transport_error]
  have "connected_field (snd (connect [1, 2, 3, 4, 5, 6] ?s)) = connected_field ?s"
    and "address_field (snd (connect [1, 2, 3, 4, 5, 6] ?s)) = address_field ?s"
    by blast+
  with f show ?thesis by (simp add: GattClient_new_def)
qed

subsection \<open>The declared length of an attribute value\<close>

text \<open>
  C5. When the first attribute-value event for the requested handle that follows the
  acknowledgment declares a length equal to the size of its payload, \<^verbatim>\<open>readAttribute\<close>
  returns that payload; when the two differ it throws the error of the code for a
  length mismatch (the spec's ProtocolError) and returns nothing. And whatever the
  transport delivers, a payload that \<^verbatim>\<open>readAttribute\<close> returns is the payload of the first
  event for the handle after the acknowledgment, and its size is the length that the
  event declares.
\<close>

theorem readAttribute_checks_declared_length:
  "(incoming (client s) =
      AttclientReadByHandleResponse # map value_event es @
      AttclientAttributeValueEvent handle len data # rest \<longrightarrow>
    (\<forall>e\<in>set es. fst e \<noteq> handle) \<longrightarrow> 0 < writes_left (client s) \<longrightarrow>
    fst (readAttribute handle s) =
      (if unat len = length data then Inr data
       else Inl (runtime_error ''Data length does not match the expected value.'')))
   \<and> (fst (readAttribute handle s) = Inr d \<longrightarrow>
        (\<exists>pre mid len' post.
           incoming (client s) =
             pre @ AttclientReadByHandleResponse # mid @
             AttclientAttributeValueEvent handle len' d # post \<and>
           unat len' = length d \<and>
           (\<forall>l' d'. AttclientAttributeValueEvent handle l' d' \<notin> set mid)))"
proof (intro conjI impI)
  assume "incoming (client s) =
      AttclientReadByHandleResponse # map value_event es @
      AttclientAttributeValueEvent handle len data # rest"
    and "\<forall>e\<in>set es. fst e \<noteq> handle" and "0 < writes_left (client s)"
  then show "fst (readAttribute handle s) =
      (if unat len = length data then Inr data
       else Inl (runtime_error ''Data length does not match the expected value.''))"
    by (simp add: readAttribute_matching_event)
next
  assume ok: "fst (readAttribute handle s) = Inr d"
  obtain r1 s1 where w: "client_write (AttclientReadByHandle (connection s) handle) s = (r1, s1)"
    by (cases "client_write (AttclientReadByHandle (connection s) handle) s")
  obtain r2 s2 where a: "readResponse as_AttclientReadByHandleResponse s1 = (r2, s2)"
    by (cases "readResponse as_AttclientReadByHandleResponse s1")
  obtain r3 s3 where l: "readAttribute_retry handle s2 = (r3, s3)"
    by (cases "readAttribute_retry handle s2")
  from ok w a l have r: "r1 = Inr ()" "r2 = Inr ()" "r3 = Inr d"
    by (auto simp: readAttribute_def and_then_def split: sum.splits)
  from w r(1) have inc1: "incoming (client s1) = incoming (client s)"
    by (auto simp: client_write_def split: if_splits)
  from readResponse_Inr [OF a [unfolded r(2)]]
  obtain pre m where p: "incoming (client s1) = pre @ m # incoming (client s2)"
    "as_AttclientReadByHandleResponse m = Some ()" by blast
  from p(2) have m: "m = AttclientReadByHandleResponse"
    by (cases m) (simp_all add: as_AttclientReadByHandleResponse_def)
  from readAttribute_retry_Inr [OF l [unfolded r(3)]]
  obtain mid len' where q: "incoming (client s2) = mid @ AttclientAttributeValueEvent handle len' d # incoming (client s3)"
    "unat len' = length d" "\<forall>l' d'. AttclientAttributeValueEvent handle l' d' \<notin> set mid"
    by blast
  from inc1 p(1) m q(1) have "incoming (client s) =
             pre @ AttclientReadByHandleResponse # mid @
             AttclientAttributeValueEvent handle len' d # incoming (client s3)"
    by simp
  with q(2,3) show "\<exists>pre mid len' post.
           incoming (client s) =
             pre @ AttclientReadByHandleResponse # mid @
             AttclientAttributeValueEvent handle len' d # post \<and>
           unat len' = length d \<and>
           (\<forall>l' d'. AttclientAttributeValueEvent handle l' d' \<notin> set mid)"
    by blast
qed

theorem readAttribute_checks_declared_length_witness:
  "fst (readAttribute 0x2A (GattClient_new (replaying
      [AttclientReadByHandleResponse, AttclientAttributeValueEvent 0x30 1 [7],
       AttclientAttributeValueEvent 0x2A 3 [1, 2]] 1 Reject)))
     = Inl (runtime_error ''Data length does not match the expected value.'')
   \<and> fst (readAttribute 0x2A (GattClient_new (replaying
      [AttclientReadByHandleResponse, AttclientAttributeValueEvent 0x30 1 [7],
       AttclientAttributeValueEvent 0x2A 2 [1, 2]] 1 Reject)))
     = Inr [1, 2]
   \<and> (\<exists>pre mid len' post.
         [AttclientReadByHandleResponse, AttclientAttributeValueEvent 0x30 1 [7],
          AttclientAttributeValueEvent 0x2A 2 [1, 2]] =
           pre @ AttclientReadByHandleResponse # mid @
           AttclientAttributeValueEvent 0x2A len' [1, 2] # post \<and>
         unat len' = length [1 :: u8, 2] \<and>
         (\<forall>l' d'. AttclientAttributeValueEvent 0x2A l' d' \<notin> set mid))"
proof -
  let ?bad = "GattClient_new (replaying
      [AttclientReadByHandleResponse, AttclientAttributeValueEvent 0x30 1 [7],
       AttclientAttributeValueEvent 0x2A 3 [1, 2]] 1 Reject)"
  let ?good = "GattClient_new (replaying
      [AttclientReadByHandleResponse, AttclientAttributeValueEvent 0x30 1 [7],
       AttclientAttributeValueEvent 0x2A 2 [1, 2]] 1 Reject)"
  have bad: "fst (readAttribute 0x2A ?bad)
     = Inl (runtime_error ''Data length does not match the expected value.'')"
    using readAttribute_checks_declared_length
      [of ?bad "[(0x30, 1, [7])]" "0x2A" 3 "[1, 2]" "[]" "[]"]
    by (simp add: GattClient_new_def replaying_def)
  have good: "fst (readAttribute 0x2A ?good) = Inr [1, 2]"
    using readAttribute_checks_declared_length
      [of ?good "[(0x30, 1, [7])]" "0x2A" 2 "[1, 2]" "[]" "[]"]
    by (simp add: GattClient_new_def replaying_def)
  from good readAttribute_checks_declared_length
      [of ?good "[]" "0x2A" 0 "[]" "[]" "[1, 2]"]
  have "\<exists>pre mid len' post.
         incoming (client ?good) =
           pre @ AttclientReadByHandleResponse # mid @
           AttclientAttributeValueEvent 0x2A len' [1, 2] # post \<and>
         unat len' = length [1 :: u8, 2] \<and>
         (\<forall>l' d'. AttclientAttributeValueEvent 0x2A l' d' \<notin> set mid)"
    by blast
  with bad good show ?thesis by (simp add: GattClient_new_def replaying_def)
qed

subsection \<open>Disconnecting every slot\<close>

text \<open>
  C6. \<^verbatim>\<open>disconnectAll\<close> issues exactly three disconnect commands, for the slots 0, 1 and
  2 in this order, whatever the state of the driver; the connected flag is cleared
  exactly when the driver was connected on one of these slots, and the active slot and
  the stored address stay. It waits for the disconnected event only for the slot that is
  the active connection of a connected driver: when the transport replays, for each
  slot, the acknowledgment and, for that slot alone, the disconnected event, the call
  returns having read exactly these messages.
\<close>

theorem disconnectAll_three_commands:
  "(fst (disconnectAll s) = Inr () \<longrightarrow>
      sent (client (snd (disconnectAll s))) = sent (client s) @
        [ConnectionDisconnect 0, ConnectionDisconnect 1, ConnectionDisconnect 2] \<and>
      connected_field (snd (disconnectAll s)) =
        (connected_field s \<and> connection s \<notin> {0, 1, 2}) \<and>
      connection (snd (disconnectAll s)) = connection s \<and>
      address_field (snd (disconnectAll s)) = address_field s)
   \<and> (incoming (client s) =
         disconnect_reply s 0 @ disconnect_reply s 1 @ disconnect_reply s 2 @ rest \<longrightarrow>
       3 \<le> writes_left (client s) \<longrightarrow>
       disconnectAll s =
         (Inr (),
          s\<lparr>client := (client s)\<lparr>sent := sent (client s) @
                  [ConnectionDisconnect 0, ConnectionDisconnect 1, ConnectionDisconnect 2],
                writes_left := writes_left (client s) - 3, incoming := rest\<rparr>,
            connected_field := connected_field s \<and> connection s \<notin> {0, 1, 2}\<rparr>))"
proof (intro conjI impI)
  assume "fst (disconnectAll s) = Inr ()"
  then have "disconnectAll s = (Inr (), snd (disconnectAll s))"
    by (cases "disconnectAll s") simp
  from disconnectAll_returns [OF this]
  show "sent (client (snd (disconnectAll s))) = sent (client s) @
        [ConnectionDisconnect 0, ConnectionDisconnect 1, ConnectionDisconnect 2]"
    and "connected_field (snd (disconnectAll s)) =
        (connected_field s \<and> connection s \<notin> {0, 1, 2})"
    and "connection (snd (disconnectAll s)) = connection s"
    and "address_field (snd (disconnectAll s)) = address_field s"
    by simp_all
next
  assume "incoming (client s) =
         disconnect_reply s 0 @ disconnect_reply s 1 @ disconnect_reply s 2 @ rest"
    and "3 \<le> writes_left (client s)"
  then show "disconnectAll s =
         (Inr (),
          s\<lparr>client := (client s)\<lparr>sent := sent (client s) @
                  [ConnectionDisconnect 0, ConnectionDisconnect 1, ConnectionDisconnect 2],
                writes_left := writes_left (client s) - 3, incoming := rest\<rparr>,
            connected_field := connected_field s \<and> connection s \<notin> {0, 1, 2}\<rparr>)"
    by (rule disconnectAll_replied)
qed

theorem disconnectAll_three_commands_witness:
  "disconnectAll
     \<lparr>client = replaying [ConnectionDisconnectResponse, ConnectionDisconnectResponse,
                  ConnectionDisconnectedEvent, ConnectionDisconnectResponse] 3 Reject,
      connected_field = True, address_field = [1, 2, 3, 4, 5, 6], connection = 1,
      event_queue = []\<rparr>
   = (Inr (),
      \<lparr>client = \<lparr>incoming = [],
          sent = [ConnectionDisconnect 0, ConnectionDisconnect 1, ConnectionDisconnect 2],
          writes_left = 0, on_unexpected = Reject\<rparr>,
       connected_field = False, address_field = [1, 2, 3, 4, 5, 6], connection = 1,
       event_queue = []\<rparr>)
   \<and> sent (client (snd (disconnectAll
     \<lparr>client = replaying [ConnectionDisconnectResponse, ConnectionDisconnectResponse,
                  ConnectionDisconnectedEvent, ConnectionDisconnectResponse] 3 Reject,
      connected_field = True, address_field = [1, 2, 3, 4, 5, 6], connection = 1,
      event_queue = []\<rparr>)))
     = [ConnectionDisconnect 0, ConnectionDisconnect 1, ConnectionDisconnect 2]"
proof -
  let ?s = "\<lparr>client = replaying [ConnectionDisconnectResponse, ConnectionDisconnectResponse,
                  ConnectionDisconnectedEvent, ConnectionDisconnectResponse] 3 Reject,
      connected_field = True, address_field = [1, 2, 3, 4, 5, 6], connection = 1,
      event_queue = []\<rparr>"
  have run: "disconnectAll ?s
   = (Inr (),
      \<lparr>client = \<lparr>incoming = [],
          sent = [ConnectionDisconnect 0, ConnectionDisconnect 1, ConnectionDisconnect 2],
          writes_left = 0, on_unexpected = Reject\<rparr>,
       connected_field = False, address_field = [1, 2, 3, 4, 5, 6], connection = 1,
       event_queue = []\<rparr>)"
    using disconnectAll_three_commands [of ?s "[]"]
    by (simp add: replaying_def disconnect_reply_def)
  then have "fst (disconnectAll ?s) = Inr ()" by simp
  with disconnectAll_three_commands [of ?s "[]"]
  have "sent (client (snd (disconnectAll ?s))) = sent (client ?s) @
        [ConnectionDisconnect 0, ConnectionDisconnect 1, ConnectionDisconnect 2]"
    by blast
  with run show ?thesis by (simp add: replaying_def)
qed

subsection \<open>Discovery stops on the callback's answer\<close>

text \<open>
  C7. For every call of \<^verbatim>\<open>discover\<close>, whatever the transport delivers: the calls of the
  callback are recorded with their outcomes, and every call but the last was answered
  true, so no call follows an answer of false. When \<^verbatim>\<open>discover\<close> returns, the last call
  was answered false, the commands written are the start of the discovery and then the
  end-procedure command, once, and the last message read is its acknowledgment. When
  \<^verbatim>\<open>discover\<close> fails instead, the end-procedure command was written at most once, and
  only after an answer of false; when the last call of the callback threw, \<^verbatim>\<open>discover\<close>
  fails with that exception and has written the start of the discovery only. Recording
  the calls does not change what \<^verbatim>\<open>discover\<close> does with the callback.

  And \<^verbatim>\<open>discover\<close> does return: when the transport accepts two writes and delivers
  acknowledgments of the start and scan responses that the callback answers with true,
  then a scan response that it answers with false, then the acknowledgment of the
  end-procedure command, \<^verbatim>\<open>discover\<close> returns normally, having written the start of the
  discovery and the end-procedure command, read the script up to that acknowledgment
  and nothing after it, and changed nothing else in the driver.
\<close>

theorem discover_stops_and_ends_procedure:
  "(discover (logged callback) s (u, []) = (r, s', (u', calls)) \<longrightarrow>
     discover callback s u = (r, s', u') \<and>
     (\<forall>c\<in>set (butlast calls). answer c = Inr True) \<and>
     (r = Inr () \<longrightarrow>
        calls \<noteq> [] \<and> answer (last calls) = Inr False \<and>
        sent (client s') = sent (client s) @ [GapDiscover DiscoverGeneric, GapEndProcedure] \<and>
        (\<exists>consumed. incoming (client s) =
           consumed @ GapEndProcedureResponse # incoming (client s'))) \<and>
     (r \<noteq> Inr () \<longrightarrow>
        sent (client s') = sent (client s) \<or>
        sent (client s') = sent (client s) @ [GapDiscover DiscoverGeneric] \<or>
        sent (client s') = sent (client s) @ [GapDiscover DiscoverGeneric, GapEndProcedure] \<and>
        calls \<noteq> [] \<and> answer (last calls) = Inr False) \<and>
     (\<forall>e. calls \<noteq> [] \<and> answer (last calls) = Inl e \<longrightarrow>
        r = Inl e \<and> sent (client s') = sent (client s) @ [GapDiscover DiscoverGeneric]))
   \<and> (incoming (client s) =
         pre @ GapScanResponseEvent rssi sender data # GapEndProcedureResponse # rest \<longrightarrow>
       keeps_scanning callback pre u = Some u_stop \<longrightarrow>
       callback rssi sender data u_stop = (Inr False, u_end) \<longrightarrow>
       2 \<le> writes_left (client s) \<longrightarrow>
       discover callback s u =
         (Inr (),
          s\<lparr>client := (client s)\<lparr>sent := sent (client s) @
                                       [GapDiscover DiscoverGeneric, GapEndProcedure],
                                     writes_left := writes_left (client s) - 2,
                                     incoming := rest\<rparr>\<rparr>,
          u_end))"
proof (intro conjI impI)
  assume run: "discover (logged callback) s (u, []) = (r, s', (u', calls))"
  let ?P = "discover callback s u = (r, s', u') \<and>
     (\<forall>c\<in>set (butlast calls). answer c = Inr True) \<and>
     (r = Inr () \<longrightarrow>
        calls \<noteq> [] \<and> answer (last calls) = Inr False \<and>
        sent (client s') = sent (client s) @ [GapDiscover DiscoverGeneric, GapEndProcedure] \<and>
        (\<exists>consumed. incoming (client s) =
           consumed @ GapEndProcedureResponse # incoming (client s'))) \<and>
     (r \<noteq> Inr () \<longrightarrow>
        sent (client s') = sent (client s) \<or>
        sent (client s') = sent (client s) @ [GapDiscover DiscoverGeneric] \<or>
        sent (client s') = sent (client s) @ [GapDiscover DiscoverGeneric, GapEndProcedure] \<and>
        calls \<noteq> [] \<and> answer (last calls) = Inr False) \<and>
     (\<forall>e. calls \<noteq> [] \<and> answer (last calls) = Inl e \<longrightarrow>
        r = Inl e \<and> sent (client s') = sent (client s) @ [GapDiscover DiscoverGeneric])"
  obtain r1 s1 where w1: "client_write (GapDiscover DiscoverGeneric) s = (r1, s1)"
    by (cases "client_write (GapDiscover DiscoverGeneric) s")
  from w1 have ?P
  proof (cases rule: client_write_cases)
    case failed
    with w1 run show ?thesis by (auto simp: discover_def)
  next
    case written
    obtain r2 s2 u2 l2 where lp: "discover_loop (logged callback) s1 (u, []) = (r2, s2, (u2, l2))"
      by (cases "discover_loop (logged callback) s1 (u, [])") auto
    from discover_loop_logged [OF lp]
    have ce: "calls_end r2 l2" and ul: "discover_loop callback s1 u = (r2, s2, u2)"
      and sw: "sent (client s2) = sent (client s1)"
      and sf: "suffix (incoming (client s2)) (incoming (client s1))"
      by (auto simp: same_writes_def)
    show ?thesis
    proof (cases r2)
      case (Inl e)
      with w1 written lp ul run have "r = Inl e" "s' = s2" "u' = u2" "calls = l2"
        and "discover callback s u = (r, s', u')"
        by (auto simp: discover_def)
      with ce Inl sw written show ?thesis
        by (auto simp: calls_end_def)
    next
      case (Inr x)
      with ce have l2: "l2 \<noteq> []" "answer (last l2) = Inr False"
        "\<forall>c\<in>set (butlast l2). answer c = Inr True"
        by (simp_all add: calls_end_def)
      obtain r3 s3 where w2: "client_write GapEndProcedure s2 = (r3, s3)"
        by (cases "client_write GapEndProcedure s2")
      from w2 show ?thesis
      proof (cases rule: client_write_cases)
        case failed
        with w1 written(1) lp ul Inr w2 run
        have "r = Inl transport_error" "s' = s2" "u' = u2" "calls = l2"
          and "discover callback s u = (r, s', u')"
          by (auto simp: discover_def)
        with l2 sw written show ?thesis by auto
      next
        case w2ok: written
        obtain r4 s4 where rd: "client_read as_GapEndProcedureResponse s3 = (r4, s4)"
          by (cases "client_read as_GapEndProcedureResponse s3")
        from client_read_same_writes [OF rd] w2ok sw written
        have s4: "sent (client s4) =
            sent (client s) @ [GapDiscover DiscoverGeneric, GapEndProcedure]"
          by (simp add: same_writes_def)
        show ?thesis
        proof (cases r4)
          case (Inl e)
          with w1 written(1) lp ul Inr w2 w2ok(1) rd run
          have "r = Inl e" "s' = s4" "u' = u2" "calls = l2"
            and "discover callback s u = (r, s', u')"
            by (auto simp: discover_def)
          with l2 s4 show ?thesis by auto
        next
          case ok: (Inr y)
          with w1 written(1) lp ul Inr w2 w2ok(1) rd run
          have res: "r = Inr ()" "s' = s4" "u' = u2" "calls = l2"
            and un: "discover callback s u = (r, s', u')"
            by (auto simp: discover_def)
          from client_read_Inr [OF rd [unfolded ok]]
          obtain pre m where p: "incoming (client s3) = pre @ m # incoming (client s4)"
            "as_GapEndProcedureResponse m = Some y" by blast
          from p(2) have m: "m = GapEndProcedureResponse"
            by (cases m) (simp_all add: as_GapEndProcedureResponse_def)
          from sf obtain pre0 where "incoming (client s1) = pre0 @ incoming (client s2)"
            by (auto simp: suffix_def)
          with written w2ok p(1) m
          have "incoming (client s) = (pre0 @ pre) @ GapEndProcedureResponse # incoming (client s4)"
            by simp
          then have "\<exists>consumed. incoming (client s) =
             consumed @ GapEndProcedureResponse # incoming (client s4)" by blast
          with res un l2 s4 show ?thesis by auto
        qed
      qed
    qed
  qed
  then show "discover callback s u = (r, s', u')"
    and "\<forall>c\<in>set (butlast calls). answer c = Inr True"
    and "r = Inr () \<Longrightarrow> calls \<noteq> []"
    and "r = Inr () \<Longrightarrow> answer (last calls) = Inr False"
    and "r = Inr () \<Longrightarrow>
      sent (client s') = sent (client s) @ [GapDiscover DiscoverGeneric, GapEndProcedure]"
    and "r = Inr () \<Longrightarrow>
      \<exists>consumed. incoming (client s) = consumed @ GapEndProcedureResponse # incoming (client s')"
    and "r \<noteq> Inr () \<Longrightarrow>
        sent (client s') = sent (client s) \<or>
        sent (client s') = sent (client s) @ [GapDiscover DiscoverGeneric] \<or>
        sent (client s') = sent (client s) @ [GapDiscover DiscoverGeneric, GapEndProcedure] \<and>
        calls \<noteq> [] \<and> answer (last calls) = Inr False"
    and "\<forall>e. calls \<noteq> [] \<and> answer (last calls) = Inl e \<longrightarrow>
        r = Inl e \<and> sent (client s') = sent (client s) @ [GapDiscover DiscoverGeneric]"
    by blast+
next
  assume "incoming (client s) =
         pre @ GapScanResponseEvent rssi sender data # GapEndProcedureResponse # rest"
    "keeps_scanning callback pre u = Some u_stop"
    "callback rssi sender data u_stop = (Inr False, u_end)"
    "2 \<le> writes_left (client s)"
  then show "discover callback s u =
         (Inr (),
          s\<lparr>client := (client s)\<lparr>sent := sent (client s) @
                                       [GapDiscover DiscoverGeneric, GapEndProcedure],
                                     writes_left := writes_left (client s) - 2,
                                     incoming := rest\<rparr>\<rparr>,
          u_end)"
    by (rule discover_stops)
qed

theorem discover_stops_and_ends_procedure_witness:
  "discover (logged (\<lambda>rssi sender data n. (Inr (n < 1), Suc n)))
     (GattClient_new (replaying
        [GapDiscoverResponse, GapScanResponseEvent 200 [1, 2, 3, 4, 5, 6] [9],
         GapScanResponseEvent 190 [6, 5, 4, 3, 2, 1] [], GapEndProcedureResponse,
         GapScanResponseEvent 180 [1, 1, 1, 1, 1, 1] []] 2 Reject)) (0 :: nat, [])
   = (Inr (),
      \<lparr>client = \<lparr>incoming = [GapScanResponseEvent 180 [1, 1, 1, 1, 1, 1] []],
          sent = [GapDiscover DiscoverGeneric, GapEndProcedure], writes_left = 0,
          on_unexpected = Reject\<rparr>,
       connected_field = False, address_field = replicate 6 0, connection = 0,
       event_queue = []\<rparr>,
      (2, [(200, [1, 2, 3, 4, 5, 6], [9], Inr True), (190, [6, 5, 4, 3, 2, 1], [], Inr False)]))
   \<and> discover (\<lambda>rssi sender data n. (Inr (n < 1), Suc n))
     (GattClient_new (replaying
        [GapDiscoverResponse, GapScanResponseEvent 200 [1, 2, 3, 4, 5, 6] [9],
         GapScanResponseEvent 190 [6, 5, 4, 3, 2, 1] [], GapEndProcedureResponse,
         GapScanResponseEvent 180 [1, 1, 1, 1, 1, 1] []] 2 Reject)) (0 :: nat)
   = (Inr (),
      \<lparr>client = \<lparr>incoming = [GapScanResponseEvent 180 [1, 1, 1, 1, 1, 1] []],
          sent = [GapDiscover DiscoverGeneric, GapEndProcedure], writes_left = 0,
          on_unexpected = Reject\<rparr>,
       connected_field = False, address_field = replicate 6 0, connection = 0,
       event_queue = []\<rparr>,
      2)
   \<and> discover (logged (\<lambda>rssi sender data n.
                 (if n < 1 then Inr True else Inl (runtime_error ''stop''), Suc n)))
     (GattClient_new (replaying
        [GapDiscoverResponse, GapScanResponseEvent 200 [1, 2, 3, 4, 5, 6] [9],
         GapScanResponseEvent 190 [6, 5, 4, 3, 2, 1] [], GapEndProcedureResponse] 2 Reject))
     (0 :: nat, [])
   = (Inl (runtime_error ''stop''),
      \<lparr>client = \<lparr>incoming = [GapEndProcedureResponse],
          sent = [GapDiscover DiscoverGeneric], writes_left = 1,
          on_unexpected = Reject\<rparr>,
       connected_field = False, address_field = replicate 6 0, connection = 0,
       event_queue = []\<rparr>,
      (2, [(200, [1, 2, 3, 4, 5, 6], [9], Inr True),
           (190, [6, 5, 4, 3, 2, 1], [], Inl (runtime_error ''stop''))]))"
proof -
  let ?cb = "\<lambda>(rssi :: u8) (sender :: Address) (data :: Buffer) (n :: nat).
      (Inr (n < 1) :: error + bool, Suc n)"
  let ?bad = "\<lambda>(rssi :: u8) (sender :: Address) (data :: Buffer) (n :: nat).
      (if n < 1 then Inr True else Inl (runtime_error ''stop''), Suc n)"
  let ?s = "GattClient_new (replaying
        [GapDiscoverResponse, GapScanResponseEvent 200 [1, 2, 3, 4, 5, 6] [9],
         GapScanResponseEvent 190 [6, 5, 4, 3, 2, 1] [], GapEndProcedureResponse,
         GapScanResponseEvent 180 [1, 1, 1, 1, 1, 1] []] 2 Reject)"
  let ?t = "GattClient_new (replaying
        [GapDiscoverResponse, GapScanResponseEvent 200 [1, 2, 3, 4, 5, 6] [9],
         GapScanResponseEvent 190 [6, 5, 4, 3, 2, 1] [], GapEndProcedureResponse] 2 Reject)"
  have run: "discover (logged ?cb) ?s (0, [])
   = (Inr (),
      \<lparr>client = \<lparr>incoming = [GapScanResponseEvent 180 [1, 1, 1, 1, 1, 1] []],
          sent = [GapDiscover DiscoverGeneric, GapEndProcedure], writes_left = 0,
          on_unexpected = Reject\<rparr>,
       connected_field = False, address_field = replicate 6 0, connection = 0,
       event_queue = []\<rparr>,
      (2, [(200, [1, 2, 3, 4, 5, 6], [9], Inr True), (190, [6, 5, 4, 3, 2, 1], [], Inr False)]))"
    by (simp add: discover_def GattClient_new_def replaying_def client_write_def
        discover_loop_Cons discover_handlers_def logged_def client_read_Cons
        as_GapEndProcedureResponse_def)
  have bad: "discover (logged ?bad) ?t (0, [])
   = (Inl (runtime_error ''stop''),
      \<lparr>client = \<lparr>incoming = [GapEndProcedureResponse],
          sent = [GapDiscover DiscoverGeneric], writes_left = 1,
          on_unexpected = Reject\<rparr>,
       connected_field = False, address_field = replicate 6 0, connection = 0,
       event_queue = []\<rparr>,
      (2, [(200, [1, 2, 3, 4, 5, 6], [9], Inr True),
           (190, [6, 5, 4, 3, 2, 1], [], Inl (runtime_error ''stop''))]))"
    by (simp add: discover_def GattClient_new_def replaying_def client_write_def
        discover_loop_Cons discover_handlers_def logged_def)
  note stops = discover_stops_and_ends_procedure
      [where callback = ?cb and s = ?s and u = 0 and u_stop = 1 and u_end = 2
         and pre = "[GapDiscoverResponse, GapScanResponseEvent 200 [1, 2, 3, 4, 5, 6] [9]]"
         and rssi = 190 and sender = "[6, 5, 4, 3, 2, 1]" and data = "[]"
         and rest = "[GapScanResponseEvent 180 [1, 1, 1, 1, 1, 1] []]",
       THEN conjunct2, rule_format]
  have "discover ?cb ?s 0
   = (Inr (),
      ?s\<lparr>client := (client ?s)\<lparr>sent := sent (client ?s) @
                                     [GapDiscover DiscoverGeneric, GapEndProcedure],
                                   writes_left := writes_left (client ?s) - 2,
                                   incoming := [GapScanResponseEvent 180 [1, 1, 1, 1, 1, 1] []]\<rparr>\<rparr>,
      2)"
    by (rule stops) (simp_all add: GattClient_new_def replaying_def discover_handlers_def)
  then have plain: "discover ?cb ?s 0
   = (Inr (),
      \<lparr>client = \<lparr>incoming = [GapScanResponseEvent 180 [1, 1, 1, 1, 1, 1] []],
          sent = [GapDiscover DiscoverGeneric, GapEndProcedure], writes_left = 0,
          on_unexpected = Reject\<rparr>,
       connected_field = False, address_field = replicate 6 0, connection = 0,
       event_queue = []\<rparr>,
      2)"
    by (simp add: GattClient_new_def replaying_def)
  note throws = discover_stops_and_ends_procedure
      [where callback = ?bad and s = ?t and u = 0, THEN conjunct1, THEN mp, OF bad]
  then have "discover ?bad ?t 0
   = (Inl (runtime_error ''stop''),
      \<lparr>client = \<lparr>incoming = [GapEndProcedureResponse],
          sent = [GapDiscover DiscoverGeneric], writes_left = 1,
          on_unexpected = Reject\<rparr>,
       connected_field = False, address_field = replicate 6 0, connection = 0,
       event_queue = []\<rparr>,
      2)"
    by (rule conjunct1)
  with run plain bad show ?thesis by simp
qed

subsection \<open>The address accessor\<close>

text \<open>
  C8. Whenever the driver is not connected, \<^verbatim>\<open>address()\<close> fails with the state error of
  the code (a \<^verbatim>\<open>std::logic_error\<close>) and returns no address; whenever it is connected,
  \<^verbatim>\<open>address()\<close> returns the stored peer address. So an address is returned exactly when
  \<^verbatim>\<open>connected()\<close> is true, and it is then the stored one.
\<close>

theorem address_only_while_connected:
  "(\<not> connected s \<longrightarrow>
      address s = Inl (logic_error ''Connection is not established, no address available.''))
   \<and> (connected s \<longrightarrow> address s = Inr (address_field s))
   \<and> ((\<exists>a. address s = Inr a) \<longleftrightarrow> connected s)"
  by (simp add: address_def connected_def)

theorem address_only_while_connected_witness:
  "address \<lparr>client = \<lparr>incoming = [], sent = [], writes_left = 0, on_unexpected = Reject\<rparr>,
            connected_field = False, address_field = [1, 2, 3, 4, 5, 6], connection = 0,
            event_queue = []\<rparr>
     = Inl (logic_error ''Connection is not established, no address available.'')
   \<and> address \<lparr>client = \<lparr>incoming = [], sent = [], writes_left = 0, on_unexpected = Reject\<rparr>,
            connected_field = True, address_field = [1, 2, 3, 4, 5, 6], connection = 0,
            event_queue = []\<rparr>
     = Inr [1, 2, 3, 4, 5, 6]"
  using address_only_while_connected
    [of "\<lparr>client = \<lparr>incoming = [], sent = [], writes_left = 0, on_unexpected = Reject\<rparr>,
            connected_field = False, address_field = [1, 2, 3, 4, 5, 6], connection = 0,
            event_queue = []\<rparr>"]
    address_only_while_connected
    [of "\<lparr>client = \<lparr>incoming = [], sent = [], writes_left = 0, on_unexpected = Reject\<rparr>,
            connected_field = True, address_field = [1, 2, 3, 4, 5, 6], connection = 0,
            event_queue = []\<rparr>"]
  by (simp add: connected_def)

subsection \<open>Enumerating the characteristics\<close>

text \<open>
  C9. On an enumeration that the transport answers with the acknowledgment, a run of
  information-found events and the procedure-completed event: \<^verbatim>\<open>characteristics\<close>
  raises the error of the code for a size mismatch (the spec's ProtocolError) when some
  event declares a UUID length that differs from the size of its UUID; otherwise it
  returns the mapping that sends each UUID to the handle of the last event that carried
  it (\<open>map_of\<close> takes the first pair of a key, here of the reversed run), and to nothing
  else.
\<close>

theorem characteristics_maps_uuid_to_last_handle:
  assumes "incoming (client s) =
      AttclientFindInformationResponse # map found_event fs @
      AttclientProcedureCompletedEvent # rest"
    and "0 < writes_left (client s)"
  shows "(list_all well_sized fs \<longrightarrow>
            fst (characteristics s) = Inr (map_of (rev (map entry fs)))) \<and>
         (\<not> list_all well_sized fs \<longrightarrow>
            fst (characteristics s) =
              Inl (runtime_error ''UUID size does not match the expected value.''))"
  using characteristics_found [OF assms] by simp

theorem characteristics_maps_uuid_to_last_handle_witness:
  "(case fst (characteristics (GattClient_new (replaying
        [AttclientFindInformationResponse,
         AttclientFindInformationFoundEvent 1 2 [0x00, 0x28],
         AttclientFindInformationFoundEvent 2 2 [0x03, 0x28],
         AttclientFindInformationFoundEvent 3 2 [0x00, 0x28],
         AttclientProcedureCompletedEvent] 1 Reject))) of
      Inr chr \<Rightarrow> chr [0x00, 0x28] = Some 3 \<and> chr [0x03, 0x28] = Some 2 \<and> chr [0x01] = None
    | Inl e \<Rightarrow> False)
   \<and> fst (characteristics (GattClient_new (replaying
        [AttclientFindInformationResponse,
         AttclientFindInformationFoundEvent 1 2 [0x00, 0x28],
         AttclientFindInformationFoundEvent 2 16 [0x03, 0x28],
         AttclientProcedureCompletedEvent] 1 Reject)))
     = Inl (runtime_error ''UUID size does not match the expected value.'')"
  using characteristics_maps_uuid_to_last_handle
    [of "GattClient_new (replaying
        [AttclientFindInformationResponse,
         AttclientFindInformationFoundEvent 1 2 [0x00, 0x28],
         AttclientFindInformationFoundEvent 2 2 [0x03, 0x28],
         AttclientFindInformationFoundEvent 3 2 [0x00, 0x28],
         AttclientProcedureCompletedEvent] 1 Reject)"
        "[(1, 2, [0x00, 0x28]), (2, 2, [0x03, 0x28]), (3, 2, [0x00, 0x28])]" "[]"]
    characteristics_maps_uuid_to_last_handle
    [of "GattClient_new (replaying
        [AttclientFindInformationResponse,
         AttclientFindInformationFoundEvent 1 2 [0x00, 0x28],
         AttclientFindInformationFoundEvent 2 16 [0x03, 0x28],
         AttclientProcedureCompletedEvent] 1 Reject)"
        "[(1, 2, [0x00, 0x28]), (2, 16, [0x03, 0x28])]" "[]"]
  by (simp add: GattClient_new_def replaying_def)

subsection \<open>What a revival leaves unchanged\<close>

text \<open>
  C10. When \<^verbatim>\<open>connect(address)\<close> succeeds by adopting a slot that already reports a
  connection to the requested address, the connected flag and the stored peer address
  are what they were before the call. In particular, on a driver that was not connected
  (as a freshly constructed one is), \<^verbatim>\<open>connected()\<close> still answers false and
  \<^verbatim>\<open>address()\<close> still raises after the call has returned.
\<close>

theorem connect_revival_leaves_flag_and_address:
  assumes "incoming (client s) = concat (map status_reply earlier) @ status_reply st @ rest"
    and "length earlier < 3"
    and "\<forall>st'\<in>set earlier. \<not> reports_connected_to peer st'"
    and "reports_connected_to peer st"
    and "length earlier < writes_left (client s)"
  shows "case connect peer s of (r, s') \<Rightarrow>
           r = Inr () \<and> connected_field s' = connected_field s \<and>
           address_field s' = address_field s \<and>
           connected s' = connected s \<and> address s' = address s \<and>
           (\<not> connected s \<longrightarrow>
              \<not> connected s' \<and>
              address s' =
                Inl (logic_error ''Connection is not established, no address available.''))"
  by (simp add: connect_revival [OF assms] connected_def address_def)

theorem connect_revival_leaves_flag_and_address_witness:
  "case connect [1, 2, 3, 4, 5, 6]
      (GattClient_new (replaying
         (status_reply (0, [0, 0, 0, 0, 0, 0]) @ status_reply (5, [1, 2, 3, 4, 5, 6])) 5 Reject)) of
     (r, s') \<Rightarrow>
       r = Inr () \<and> connection s' = 1 \<and> \<not> connected s' \<and>
       address s' = Inl (logic_error ''Connection is not established, no address available.'')"
  using connect_revival_leaves_flag_and_address
    [of "GattClient_new (replaying
         (status_reply (0, [0, 0, 0, 0, 0, 0]) @ status_reply (5, [1, 2, 3, 4, 5, 6])) 5 Reject)"
        "[(0, [0, 0, 0, 0, 0, 0])]" "(5, [1, 2, 3, 4, 5, 6])" "[]" "[1, 2, 3, 4, 5, 6]"]
    connect_revival
    [of "GattClient_new (replaying
         (status_reply (0, [0, 0, 0, 0, 0, 0]) @ status_reply (5, [1, 2, 3, 4, 5, 6])) 5 Reject)"
        "[(0, [0, 0, 0, 0, 0, 0])]" "(5, [1, 2, 3, 4, 5, 6])" "[]" "[1, 2, 3, 4, 5, 6]"]
  by (simp add: GattClient_new_def replaying_def reports_connected_to_def Connected_def
      connected_def address_def split: prod.splits)

end
